theory Spec2Isabelle
  imports Complex_Main "HOL-Library.Word" "HOL-Library.Monad_Syntax"
begin

unbundle bit_operations_syntax

section \<open>Machine types and memory reads\<close>

text \<open>
  The renderer (src/src/Utils.cpp) works on buffers of unsigned 16-bit samples and on
  byte vectors; the web decoder (src/lib/mcraw-decoder.ts) on a \<open>Uint8Array\<close>.
  A read past the end of a C++ buffer is undefined behaviour: the model returns
  \<open>None\<close> there instead of inventing a value.
\<close>

type_synonym u8 = "8 word"
type_synonym u16 = "16 word"
type_synonym u32 = "32 word"

definition rd :: "'a list \<Rightarrow> nat \<Rightarrow> 'a option" where
  "rd buf i = (if i < length buf then Some (buf ! i) else None)"

section \<open>Settings (src/include/Types.h)\<close>

datatype QuadBayerMode = Remosaic | WrongCFAMetadata | CorrectQBCFAMetadata

datatype LogTransformMode =
  Disabled | KeepInput | ReduceBy2Bit | ReduceBy4Bit | ReduceBy6Bit | ReduceBy8Bit

text \<open>
  \<open>RenderSettings\<close>: the option bits of \<open>FileRenderOptions\<close> that
  \<open>generateDng\<close> tests are kept as one boolean each (the C++ reads them with
  \<open>settings.options & RENDER_OPT_...\<close>).
\<close>

record RenderSettings =
  optApplyVignette :: bool
  optVignetteOnlyColor :: bool
  optNormalizeShadingMap :: bool
  optDebugShadingMap :: bool
  optInterpretAsQuadBayer :: bool
  draftScale :: int
  logTransform :: LogTransformMode
  quadBayerOption :: QuadBayerMode

section \<open>Quad-Bayer binning in preprocessData\<close>

text \<open>
  \<open>scale = (scale > 1 ? (scale / 2) * 2 : 1)\<close> and
  \<open>cfaSize = (interpretAsQuadBayer ? 2 : 1)\<close>, the first two statements of
  \<open>preprocessData\<close>.
\<close>

definition evenScale :: "nat \<Rightarrow> nat" where
  "evenScale scale = (if scale > 1 then (scale div 2) * 2 else 1)"

definition cfaSizeOf :: "bool \<Rightarrow> nat" where
  "cfaSizeOf interpretAsQuadBayer = (if interpretAsQuadBayer then 2 else 1)"

text \<open>
  The source levels are floats in the C++ (\<open>std::array<float, 4>\<close> and \<open>float\<close>);
  they are modelled as reals. Lines 682-687:
  \<open>if (cfaSize > 1 && scale == 2) { srcWhiteLevel *= cfaSize * cfaSize; ... }\<close>.
\<close>

definition scaleSrcLevels :: "nat \<Rightarrow> nat \<Rightarrow> real list \<times> real \<Rightarrow> real list \<times> real" where
  "scaleSrcLevels cfaSize scale lv =
     (if cfaSize > 1 \<and> scale = 2
      then (map (\<lambda>b. b * real (cfaSize * cfaSize)) (fst lv), snd lv * real (cfaSize * cfaSize))
      else lv)"

text \<open>
  The assignment \<open>s[k] = a + b + c + d\<close> to a \<open>uint16_t\<close>: the four operands are
  promoted to \<open>int\<close>, added there (no overflow, the sum is below \<open>2^18\<close>) and the
  result is converted to 16 bits.
\<close>

definition sum4_u16 :: "u16 \<Rightarrow> u16 \<Rightarrow> u16 \<Rightarrow> u16 \<Rightarrow> u16" where
  "sum4_u16 a b c d = word_of_nat (unat a + unat b + unat c + unat d)"

text \<open>
  Lines 807-819: the four samples \<open>s[0..3]\<close> of one output 2x2 block, read from
  \<open>srcData\<close> (row length \<open>originalWidth\<close>) at the block origin \<open>(srcY, srcX)\<close>.
\<close>

definition fetchBlock ::
  "nat \<Rightarrow> nat \<Rightarrow> u16 list \<Rightarrow> nat \<Rightarrow> nat \<Rightarrow> nat \<Rightarrow> u16 list option" where
  "fetchBlock cfaSize scale srcData originalWidth srcY srcX =
     (if cfaSize = 2 \<and> scale = 2 then do {
        a0 \<leftarrow> rd srcData (srcY * originalWidth + srcX);
        a1 \<leftarrow> rd srcData (srcY * originalWidth + srcX + 1);
        a2 \<leftarrow> rd srcData ((srcY + 1) * originalWidth + srcX);
        a3 \<leftarrow> rd srcData ((srcY + 1) * originalWidth + srcX + 1);
        b0 \<leftarrow> rd srcData (srcY * originalWidth + srcX + 2);
        b1 \<leftarrow> rd srcData (srcY * originalWidth + srcX + 3);
        b2 \<leftarrow> rd srcData ((srcY + 1) * originalWidth + srcX + 2);
        b3 \<leftarrow> rd srcData ((srcY + 1) * originalWidth + srcX + 3);
        c0 \<leftarrow> rd srcData ((srcY + 2) * originalWidth + srcX);
        c1 \<leftarrow> rd srcData ((srcY + 2) * originalWidth + srcX + 1);
        c2 \<leftarrow> rd srcData ((srcY + 3) * originalWidth + srcX);
        c3 \<leftarrow> rd srcData ((srcY + 3) * originalWidth + srcX + 1);
        d0 \<leftarrow> rd srcData ((srcY + 2) * originalWidth + srcX + 2);
        d1 \<leftarrow> rd srcData ((srcY + 2) * originalWidth + srcX + 3);
        d2 \<leftarrow> rd srcData ((srcY + 3) * originalWidth + srcX + 2);
        d3 \<leftarrow> rd srcData ((srcY + 3) * originalWidth + srcX + 3);
        Some [sum4_u16 a0 a1 a2 a3, sum4_u16 b0 b1 b2 b3,
              sum4_u16 c0 c1 c2 c3, sum4_u16 d0 d1 d2 d3]
      } else do {
        s0 \<leftarrow> rd srcData (srcY * originalWidth + srcX);
        s1 \<leftarrow> rd srcData (srcY * originalWidth + srcX + cfaSize);
        s2 \<leftarrow> rd srcData ((srcY + cfaSize) * originalWidth + srcX);
        s3 \<leftarrow> rd srcData ((srcY + cfaSize) * originalWidth + srcX + cfaSize);
        Some [s0, s1, s2, s3]
      })"

text \<open>The source sample at row \<open>y\<close>, column \<open>x\<close> of the input frame, as a number.\<close>

definition px :: "u16 list \<Rightarrow> nat \<Rightarrow> nat \<Rightarrow> nat \<Rightarrow> nat" where
  "px srcData originalWidth y x = unat (srcData ! (y * originalWidth + x))"

section \<open>Destination levels and sample store in preprocessData\<close>

text \<open>
  \<open>bitsNeeded\<close> (Utils.cpp 78-90): the loop shifts the 16-bit value right until it
  is zero and counts the steps.
\<close>

function bitsLoop :: "u16 \<Rightarrow> nat \<Rightarrow> nat" where
  "bitsLoop v bits = (if v > 0 then bitsLoop (drop_bit 1 v) (bits + 1) else bits)"
  by pat_completeness auto
termination
proof (relation "measure (\<lambda>(v, bits). unat v)")
  show "wf (measure (\<lambda>(v, bits). unat v))" by simp
next
  fix v :: u16 and bits :: nat
  assume "0 < v"
  then have "0 < unat v" by (simp add: word_less_nat_alt)
  then have "unat v div 2 < unat v" by simp
  then show "((drop_bit 1 v, bits + 1), (v, bits)) \<in> measure (\<lambda>(v, bits). unat v)"
    by (simp add: unat_drop_bit_eq drop_bit_eq_div unat_div)
qed

definition bitsNeeded :: "u16 \<Rightarrow> nat" where
  "bitsNeeded v = (if v = 0 then 1 else bitsLoop v 0)"

text \<open>
  \<open>static_cast<unsigned short>(x)\<close> of a float: the value is truncated towards zero;
  the conversion is undefined when the truncated value is not representable in 16
  bits, which the model reports as \<open>None\<close>.
\<close>

definition truncf :: "real \<Rightarrow> int" where
  "truncf x = (if 0 \<le> x then \<lfloor>x\<rfloor> else - \<lfloor>- x\<rfloor>)"

definition toUShort :: "real \<Rightarrow> u16 option" where
  "toUShort x = (let t = truncf x in if 0 \<le> t \<and> t \<le> 65535 then Some (word_of_int t) else None)"

text \<open>\<open>std::pow(2.0f, useBits)\<close> for an integer exponent (exact in single precision
  for the exponents that occur, \<open>-7 .. 16\<close>).\<close>

definition pow2 :: "int \<Rightarrow> real" where
  "pow2 n = (if 0 \<le> n then 2 ^ nat n else 1 / 2 ^ nat (- n))"

text \<open>
  \<open>useBits = std::min(16, bitsNeeded(static_cast<unsigned short>(dstWhiteLevel)) + k);
  dstWhiteLevel = std::pow(2.0f, useBits) - 1;\<close>
\<close>

definition reduceWhite :: "real \<Rightarrow> int \<Rightarrow> real option" where
  "reduceWhite dstWhiteLevel k = do {
     w \<leftarrow> toUShort dstWhiteLevel;
     Some (pow2 (min 16 (int (bitsNeeded w) + k)) - 1)
   }"

text \<open>
  Lines 696-775: the destination black levels and white level, from the source
  levels (after the level selection and the quad-Bayer scaling) and the options.
  With the normalised shading map \<open>useBits\<close> is computed but the white level is
  left as it is.
\<close>

definition dstLevels ::
  "bool \<Rightarrow> bool \<Rightarrow> bool \<Rightarrow> LogTransformMode \<Rightarrow> real list \<times> real \<Rightarrow> (real list \<times> real) option" where
  "dstLevels applyShadingMap normaliseShadingMap debugShadingMap logMode src =
     (let dstBlackLevel = fst src; dstWhiteLevel = snd src; zeros = map (\<lambda>v. 0) dstBlackLevel in
      if applyShadingMap then
        (if normaliseShadingMap then do {
           w \<leftarrow> toUShort dstWhiteLevel;
           Some (zeros, dstWhiteLevel)
         }
         else if debugShadingMap then Some (zeros, dstWhiteLevel)
         else if logMode \<noteq> Disabled then
           (case logMode of
              KeepInput \<Rightarrow> map_option (Pair zeros) (reduceWhite dstWhiteLevel 0)
            | ReduceBy2Bit \<Rightarrow> map_option (Pair zeros) (reduceWhite dstWhiteLevel (- 2))
            | ReduceBy4Bit \<Rightarrow> map_option (Pair zeros) (reduceWhite dstWhiteLevel (- 4))
            | ReduceBy6Bit \<Rightarrow> map_option (Pair zeros) (reduceWhite dstWhiteLevel (- 6))
            | ReduceBy8Bit \<Rightarrow> map_option (Pair zeros) (reduceWhite dstWhiteLevel (- 8))
            | Disabled \<Rightarrow> map_option (Pair zeros) (reduceWhite dstWhiteLevel 2))
         else map_option (Pair zeros) (reduceWhite dstWhiteLevel 2))
      else if logMode \<noteq> Disabled then
        (case logMode of
           ReduceBy2Bit \<Rightarrow> map_option (Pair zeros) (reduceWhite dstWhiteLevel (- 2))
         | ReduceBy4Bit \<Rightarrow> map_option (Pair zeros) (reduceWhite dstWhiteLevel (- 4))
         | ReduceBy6Bit \<Rightarrow> map_option (Pair zeros) (reduceWhite dstWhiteLevel (- 6))
         | ReduceBy8Bit \<Rightarrow> map_option (Pair zeros) (reduceWhite dstWhiteLevel (- 8))
         | _ \<Rightarrow> Some (zeros, dstWhiteLevel))
      else Some src)"

text \<open>
  Which transfer the pixel loop applies (lines 807-851 for the 2x2 path, 1003-1020 for
  the 4x4 quad-Bayer path): the shading-map debug view, the linear rescale, or the
  logarithmic curve with dither.
\<close>

datatype PixelTransfer = GainmapView | LinearTransfer | LogTransfer

definition pixelTransfer :: "nat \<Rightarrow> nat \<Rightarrow> bool \<Rightarrow> LogTransformMode \<Rightarrow> PixelTransfer" where
  "pixelTransfer cfaSize scale debugShadingMap logMode =
     (if cfaSize < 2 \<or> scale > 1
      then (if debugShadingMap then GainmapView
            else if logMode = Disabled then LinearTransfer else LogTransfer)
      else (if logMode = Disabled then LinearTransfer else LogTransfer))"

text \<open>
  \<open>std::round\<close> rounds halfway cases away from zero. \<open>std::clamp(v, lo, hi)\<close> is
  undefined when \<open>hi < lo\<close>. The store (lines 853-860 and 1022-1040) is
  \<open>s[i] = std::clamp(std::round(p[i] + dstBlackLevel[i]), 0.f, dstWhiteLevel)\<close> into a
  \<open>uint16_t\<close>; the argument \<open>x\<close> stands for the float \<open>p[i] + dstBlackLevel[i]\<close>.
\<close>

definition roundf :: "real \<Rightarrow> real" where
  "roundf x = (if 0 \<le> x then of_int \<lfloor>x + 1 / 2\<rfloor> else - of_int \<lfloor>- x + 1 / 2\<rfloor>)"

definition clampf :: "real \<Rightarrow> real \<Rightarrow> real \<Rightarrow> real option" where
  "clampf v lo hi = (if hi < lo then None else Some (if v < lo then lo else if hi < v then hi else v))"

definition storeSample :: "real \<Rightarrow> real \<Rightarrow> u16 option" where
  "storeSample dstWhiteLevel x = do {
     c \<leftarrow> clampf (roundf x) 0 dstWhiteLevel;
     toUShort c
   }"

text \<open>
  The levels part of \<open>preprocessData\<close>'s result: the rounded black levels and
  \<open>static_cast<unsigned short>(dstWhiteLevel)\<close> (lines 1052-1057).
\<close>

definition preprocessLevels ::
  "bool \<Rightarrow> nat \<Rightarrow> bool \<Rightarrow> bool \<Rightarrow> bool \<Rightarrow> LogTransformMode \<Rightarrow> real list \<times> real
     \<Rightarrow> (u16 list \<times> u16) option" where
  "preprocessLevels interpretAsQuadBayer scale applyShadingMap normaliseShadingMap debugShadingMap logMode src = do {
     d \<leftarrow> dstLevels applyShadingMap normaliseShadingMap debugShadingMap logMode
            (scaleSrcLevels (cfaSizeOf interpretAsQuadBayer) (evenScale scale) src);
     w \<leftarrow> toUShort (snd d);
     bs \<leftarrow> those (map (\<lambda>b. toUShort (roundf b)) (fst d));
     Some (bs, w)
   }"

section \<open>CFA pattern and level tags in generateDng\<close>

text \<open>Lines 1077-1086: the 2x2 pattern of the sensor arrangement; any other string
  throws \<open>std::runtime_error("Invalid sensor arrangement")\<close>.\<close>

definition cfaOfArrangement :: "string \<Rightarrow> u8 list option" where
  "cfaOfArrangement sensorArrangement =
     (if sensorArrangement = ''rggb'' then Some [0, 1, 1, 2]
      else if sensorArrangement = ''bggr'' then Some [2, 1, 1, 0]
      else if sensorArrangement = ''grbg'' then Some [1, 0, 2, 1]
      else if sensorArrangement = ''gbrg'' then Some [1, 2, 0, 1]
      else None)"

text \<open>Line 1095: \<open>metadata.needRemosaic || settings.options & RENDER_OPT_INTERPRET_AS_QUAD_BAYER\<close>.\<close>

definition interpretAsQuadBayer :: "bool \<Rightarrow> 'a RenderSettings_scheme \<Rightarrow> bool" where
  "interpretAsQuadBayer needRemosaic settings = (needRemosaic \<or> optInterpretAsQuadBayer settings)"

text \<open>Lines 1193-1211: \<open>CFARepeatPatternDim\<close> and \<open>CFAPattern\<close>.\<close>

definition qcfaOf :: "u8 list \<Rightarrow> u8 list" where
  "qcfaOf cfa =
     (if cfa = [0, 1, 1, 2] then [0,0,1,1, 0,0,1,1, 1,1,2,2, 1,1,2,2]
      else if cfa = [2, 1, 1, 0] then [2,2,1,1, 2,2,1,1, 1,1,0,0, 1,1,0,0]
      else if cfa = [1, 0, 2, 1] then [1,1,0,0, 1,1,0,0, 2,2,1,1, 2,2,1,1]
      else [1,1,2,2, 1,1,2,2, 0,0,1,1, 0,0,1,1])"

definition cfaTags :: "u8 list \<Rightarrow> bool \<Rightarrow> 'a RenderSettings_scheme \<Rightarrow> (nat \<times> nat) \<times> u8 list" where
  "cfaTags cfa needRemosaic settings =
     (if interpretAsQuadBayer needRemosaic settings \<and> draftScale settings = 1
         \<and> quadBayerOption settings = CorrectQBCFAMetadata
      then ((4, 4), qcfaOf cfa)
      else ((2, 2), cfa))"

definition generateDngCfa :: "string \<Rightarrow> bool \<Rightarrow> 'a RenderSettings_scheme \<Rightarrow> ((nat \<times> nat) \<times> u8 list) option" where
  "generateDngCfa sensorArrangement needRemosaic settings =
     map_option (\<lambda>cfa. cfaTags cfa needRemosaic settings) (cfaOfArrangement sensorArrangement)"

text \<open>
  The 4x4 quad-Bayer pattern as the specification describes it: every sample of the
  2x2 pattern becomes a 2x2 cluster. Entry \<open>k\<close> (row \<open>k div 4\<close>, column \<open>k mod 4\<close>)
  is the 2x2 entry at row \<open>(k div 4) div 2\<close>, column \<open>(k mod 4) div 2\<close>.
\<close>

definition quadBayerExpansion :: "u8 list \<Rightarrow> u8 list" where
  "quadBayerExpansion cfa = map (\<lambda>k. cfa ! (2 * ((k div 4) div 2) + (k mod 4) div 2)) [0..<16]"

text \<open>
  Lines 1319-1361. The interior entries of the table are computed in single
  precision with \<open>std::pow\<close> and \<open>std::log2\<close> and then truncated to 16 bits; that
  computation is the parameter \<open>interior\<close> (entry index, white level). The first
  entry is \<open>0.0f * 65535.0f\<close> and the last \<open>1.0f * 65535.0f\<close>, in this order of the
  tests.
\<close>

definition linearizationTable :: "(nat \<Rightarrow> u16 \<Rightarrow> u16) \<Rightarrow> u16 \<Rightarrow> u16 list" where
  "linearizationTable interior dstWhiteLevel =
     (let tableSize = unat dstWhiteLevel + 1 in
      map (\<lambda>i. if i = 0 then 0 else if i = tableSize - 1 then 65535 else interior i dstWhiteLevel)
          [0..<tableSize])"

record LevelTags =
  tagLinearizationTable :: "u16 list option"
  tagBlackLevel :: "u16 list"
  tagWhiteLevel :: u16

definition levelTags ::
  "(nat \<Rightarrow> u16 \<Rightarrow> u16) \<Rightarrow> LogTransformMode \<Rightarrow> bool \<Rightarrow> u16 list \<Rightarrow> u16 \<Rightarrow> LevelTags" where
  "levelTags interior logMode applyShadingMap dstBlackLevel dstWhiteLevel =
     (if logMode \<noteq> Disabled \<and> \<not> (logMode = KeepInput \<and> \<not> applyShadingMap)
      then \<lparr> tagLinearizationTable = Some (linearizationTable interior dstWhiteLevel),
             tagBlackLevel = [0, 0, 0, 0], tagWhiteLevel = 65534 \<rparr>
      else \<lparr> tagLinearizationTable = None,
             tagBlackLevel = dstBlackLevel, tagWhiteLevel = dstWhiteLevel \<rparr>)"

text \<open>
  \<open>generateDng\<close> restricted to the pixel transfer and the level tags: the options
  are read from the settings (lines 1089-1095), the image is preprocessed, and the
  tags are written from the levels \<open>preprocessData\<close> returned. The draft scale is
  an \<open>int\<close> that is passed as a \<open>uint32_t\<close>, which takes it modulo \<open>2^32\<close>.
\<close>

definition generateDngLevels ::
  "(nat \<Rightarrow> u16 \<Rightarrow> u16) \<Rightarrow> bool \<Rightarrow> 'a RenderSettings_scheme \<Rightarrow> real list \<times> real
     \<Rightarrow> (PixelTransfer \<times> LevelTags) option" where
  "generateDngLevels interior needRemosaic settings src = do {
     lv \<leftarrow> preprocessLevels (interpretAsQuadBayer needRemosaic settings) (nat (draftScale settings mod 4294967296))
             (optApplyVignette settings) (optNormalizeShadingMap settings) (optDebugShadingMap settings)
             (logTransform settings) src;
     Some (pixelTransfer (cfaSizeOf (interpretAsQuadBayer needRemosaic settings))
              (evenScale (nat (draftScale settings mod 4294967296))) (optDebugShadingMap settings) (logTransform settings),
           levelTags interior (logTransform settings) (optApplyVignette settings) (fst lv) (snd lv))
   }"

text \<open>The default constructor \<open>RenderSettings()\<close> (Types.h): no option bit set, draft
  scale 1, log transform \<open>KeepInput\<close>, quad-Bayer option \<open>Remosaic\<close>.\<close>

definition defaultRenderSettings :: RenderSettings where
  "defaultRenderSettings =
     \<lparr> optApplyVignette = False, optVignetteOnlyColor = False, optNormalizeShadingMap = False,
       optDebugShadingMap = False, optInterpretAsQuadBayer = False, draftScale = 1,
       logTransform = KeepInput, quadBayerOption = Remosaic \<rparr>"

section \<open>Frame-rate inference (mcraw-decoder.ts, calculateFpsFromTimestamps)\<close>

text \<open>
  JavaScript numbers are IEEE 754 doubles. A finite double is modelled as the real
  number it denotes, and every arithmetic operation of the source as the exact
  operation followed by \<open>fl\<close>, the rounding to the nearest number with a
  significand of 53 bits, ties to the even significand. The exponent is not bounded:
  infinities, NaN and subnormal numbers are not modelled, so the model differs from
  the doubles only where a result of the source overflows or is subnormal. The
  timestamps are taken to be finite doubles.

  \<open>binExp x\<close> is the binary exponent of a positive \<open>x\<close>, the \<open>e\<close> with
  \<open>2^e \<le> x < 2^(e+1)\<close>, found by halving or doubling.
\<close>

function expUp :: "real \<Rightarrow> int" where
  "expUp x = (if 2 \<le> x then expUp (x / 2) + 1 else 0)"
  by pat_completeness auto
termination
proof (relation "measure (\<lambda>x. nat \<lfloor>x\<rfloor>)")
  show "wf (measure (\<lambda>x. nat \<lfloor>x\<rfloor>))" by simp
next
  fix x :: real
  assume "2 \<le> x"
  then have "\<lfloor>x / 2\<rfloor> < \<lfloor>x\<rfloor>" by linarith
  moreover have "0 < \<lfloor>x\<rfloor>" using \<open>2 \<le> x\<close> by linarith
  ultimately show "(x / 2, x) \<in> measure (\<lambda>x. nat \<lfloor>x\<rfloor>)" by simp
qed

function expDown :: "real \<Rightarrow> int" where
  "expDown x = (if 0 < x \<and> x < 1 then expDown (2 * x) - 1 else 0)"
  by pat_completeness auto
termination
proof (relation "measure (\<lambda>x. nat \<lfloor>1 / x\<rfloor>)")
  show "wf (measure (\<lambda>x. nat \<lfloor>1 / x\<rfloor>))" by simp
next
  fix x :: real
  assume a: "0 < x \<and> x < 1"
  define y where "y = 1 / x"
  from a have "1 < y" by (simp add: y_def)
  then have p: "0 < \<lfloor>y\<rfloor>" by simp
  have "y / 2 < of_int \<lfloor>y\<rfloor>"
  proof (cases "y < 2")
    case True
    with p show ?thesis by linarith
  next
    case False
    have "y - 1 < of_int \<lfloor>y\<rfloor>" by linarith
    with False show ?thesis by linarith
  qed
  then have q: "\<lfloor>y / 2\<rfloor> < \<lfloor>y\<rfloor>" by (simp add: floor_less_iff)
  have e: "1 / (2 * x) = y / 2" by (simp add: y_def)
  show "(2 * x, x) \<in> measure (\<lambda>x. nat \<lfloor>1 / x\<rfloor>)"
    unfolding in_measure e y_def [symmetric] using p q by linarith
qed

definition binExp :: "real \<Rightarrow> int" where
  "binExp x = (if 1 \<le> x then expUp x else expDown x)"

text \<open>The nearest integer, ties to the even one.\<close>

definition roundEven :: "real \<Rightarrow> int" where
  "roundEven y =
     (if y - of_int \<lfloor>y\<rfloor> < 1 / 2 then \<lfloor>y\<rfloor>
      else if y - of_int \<lfloor>y\<rfloor> > 1 / 2 then \<lfloor>y\<rfloor> + 1
      else if even \<lfloor>y\<rfloor> then \<lfloor>y\<rfloor> else \<lfloor>y\<rfloor> + 1)"

text \<open>The nearest double: the significand \<open>x / 2^(e - 52)\<close> is rounded to an integer.\<close>

definition flPos :: "real \<Rightarrow> real" where
  "flPos x = of_int (roundEven (x / 2 powi (binExp x - 52))) * 2 powi (binExp x - 52)"

definition fl :: "real \<Rightarrow> real" where
  "fl x = (if x = 0 then 0 else if 0 < x then flPos x else - flPos (- x))"

text \<open>
  The deltas of consecutive timestamps, keeping the positive ones (lines 544-550).
\<close>

definition timestampDeltas :: "real list \<Rightarrow> real list" where
  "timestampDeltas ts =
     filter (\<lambda>d. d > 0) (map (\<lambda>i. fl (ts ! i - ts ! (i - 1))) [1..<length ts])"

text \<open>Lines 562-579: the unit of the median delta is guessed from its size.\<close>

definition rawFpsOf :: "real \<Rightarrow> real" where
  "rawFpsOf medianDelta =
     (if medianDelta > 10000000 then fl (1000000000 / medianDelta)
      else if medianDelta > 10000 then fl (1000000 / medianDelta)
      else if medianDelta > 10 then fl (1000 / medianDelta)
      else fl (1 / medianDelta))"

text \<open>Line 582. The literals \<open>29.97\<close> and \<open>59.94\<close> denote the nearest doubles; the
  other rates are integers.\<close>

definition commonRates :: "real list" where
  "commonRates = [18, 24, 25, fl (2997 / 100), 30, 48, 50, fl (5994 / 100), 60, 120]"

text \<open>Line 584, \<open>Math.abs(rawFps - rate) / rate < 0.05\<close>: a subtraction, a division
  and the literal \<open>0.05\<close>, each rounded.\<close>

definition nearRate :: "real \<Rightarrow> real \<Rightarrow> bool" where
  "nearRate rawFps rate \<longleftrightarrow> fl (\<bar>fl (rawFps - rate)\<bar> / rate) < fl (5 / 100)"

text \<open>Lines 583-588: the loop returns at the first rate the raw value is close to.\<close>

fun snapToCommon :: "real list \<Rightarrow> real \<Rightarrow> real option" where
  "snapToCommon [] rawFps = None"
| "snapToCommon (rate # rates) rawFps =
     (if nearRate rawFps rate then Some rate else snapToCommon rates rawFps)"

text \<open>\<open>Math.round\<close> gives the nearest integer of a double, halfway cases up.\<close>

definition mathRound :: "real \<Rightarrow> int" where
  "mathRound x = \<lfloor>x + 1 / 2\<rfloor>"

text \<open>Lines 557-558: \<open>sort((a, b) => a - b)\<close> sorts finite numbers in ascending
  order (the rounded difference has the sign of the exact one).\<close>

definition medianDelta :: "real list \<Rightarrow> real" where
  "medianDelta ts = (let deltas = sort (timestampDeltas ts) in deltas ! (length deltas div 2))"

definition calculateFpsFromTimestamps :: "real list \<Rightarrow> real" where
  "calculateFpsFromTimestamps ts =
     (if length ts < 2 then 24
      else if timestampDeltas ts = [] then 24
      else let rawFps = rawFpsOf (medianDelta ts) in
        (case snapToCommon commonRates rawFps of
           Some rate \<Rightarrow> rate
         | None \<Rightarrow> (let result = mathRound rawFps in
                     if result > 0 \<and> result < 1000 then of_int result else 24)))"

section \<open>The frame loop of processClientSideMcraw (client-mcraw-processor.ts)\<close>

text \<open>
  What happens to one frame inside the \<open>try\<close> block: it is decoded and encoded, or
  \<open>decodeFrame\<close> returns a frame without data (the \<open>continue\<close> of line 98), or
  something throws and the \<open>catch\<close> block runs.
\<close>

datatype FrameOutcome = FrameOk | FrameNoData | FrameThrows

datatype JobError = TooManyFailures nat int | NoFrameProcessed

record ProcessingResult =
  successfulFrames :: nat
  failedFrames :: nat
  totalFrames :: int

text \<open>
  Lines 88-133. \<open>failedFrames > framesToProcess * 0.8\<close> compares an integer with a
  double product; for the integers that occur it holds exactly when
  \<open>5 * failedFrames > 4 * framesToProcess\<close> (the product is exact when it is an
  integer, and at least 0.2 away from every integer otherwise).
\<close>

fun frameLoop :: "int \<Rightarrow> FrameOutcome list \<Rightarrow> nat \<Rightarrow> nat \<Rightarrow> JobError + nat \<times> nat" where
  "frameLoop framesToProcess [] successful failed = Inr (successful, failed)"
| "frameLoop framesToProcess (FrameOk # rest) successful failed =
     frameLoop framesToProcess rest (successful + 1) failed"
| "frameLoop framesToProcess (FrameNoData # rest) successful failed =
     frameLoop framesToProcess rest successful (failed + 1)"
| "frameLoop framesToProcess (FrameThrows # rest) successful failed =
     (if 5 * int (failed + 1) > 4 * framesToProcess
      then Inl (TooManyFailures (failed + 1) framesToProcess)
      else frameLoop framesToProcess rest successful (failed + 1))"

text \<open>
  Lines 79-81 and 135-153. \<open>settings.frameRange?.start || 0\<close>: an absent range and a
  start of 0 both give 0; an absent end and an end of 0 both give the last frame.
  \<open>outcomeOf i\<close> is what happens to frame \<open>i\<close>.
\<close>

definition startFrameOf :: "(int \<times> int) option \<Rightarrow> int" where
  "startFrameOf frameRange = (case frameRange of None \<Rightarrow> 0 | Some r \<Rightarrow> fst r)"

definition endFrameOf :: "int \<Rightarrow> (int \<times> int) option \<Rightarrow> int" where
  "endFrameOf decoderFrames frameRange =
     min (case frameRange of None \<Rightarrow> decoderFrames - 1
            | Some r \<Rightarrow> if snd r = 0 then decoderFrames - 1 else snd r)
         (decoderFrames - 1)"

definition framesToProcessOf :: "int \<Rightarrow> (int \<times> int) option \<Rightarrow> int" where
  "framesToProcessOf decoderFrames frameRange =
     endFrameOf decoderFrames frameRange - startFrameOf frameRange + 1"

definition rangeOutcomes ::
  "int \<Rightarrow> (int \<times> int) option \<Rightarrow> (int \<Rightarrow> FrameOutcome) \<Rightarrow> FrameOutcome list" where
  "rangeOutcomes decoderFrames frameRange outcomeOf =
     map outcomeOf [startFrameOf frameRange..endFrameOf decoderFrames frameRange]"

definition processFrames ::
  "int \<Rightarrow> (int \<times> int) option \<Rightarrow> (int \<Rightarrow> FrameOutcome) \<Rightarrow> JobError + ProcessingResult" where
  "processFrames decoderFrames frameRange outcomeOf =
     (case frameLoop (framesToProcessOf decoderFrames frameRange)
             (rangeOutcomes decoderFrames frameRange outcomeOf) 0 0 of
        Inl e \<Rightarrow> Inl e
      | Inr r \<Rightarrow> if fst r = 0 then Inl NoFrameProcessed
                 else Inr \<lparr> successfulFrames = fst r, failedFrames = snd r,
                            totalFrames = framesToProcessOf decoderFrames frameRange \<rparr>)"

section \<open>Colour-only shading map (Utils.cpp, colorOnlyShadingMap)\<close>

text \<open>
  The shading map is a vector of planes of floats, modelled as lists of reals. The
  function changes the map in place; the model returns the new map. Two things the
  C++ does have no real counterpart and are results of their own: an index past the
  end of a plane (undefined behaviour), and a division by a zero gain (the C++ stores
  an infinity or a NaN there and goes on).
\<close>

datatype ShadingError = ShadingOutOfBounds | ShadingNonFinite

text \<open>Lines 155-159: the maximum over all planes, starting from \<open>0.0f\<close>.\<close>

definition maxGain :: "real list list \<Rightarrow> real" where
  "maxGain shadingMap = fold (\<lambda>row acc. fold (\<lambda>v a. max a v) row acc) shadingMap 0"

text \<open>The indices \<open>j * lensShadingMapWidth + i\<close> in the order of the two nested loops.\<close>

definition gridIndices :: "int \<Rightarrow> int \<Rightarrow> nat list" where
  "gridIndices w h = concat (map (\<lambda>j. map (\<lambda>i. j * nat w + i) [0..<nat w]) [0..<nat h])"

text \<open>The four channel gains of a grid cell, \<open>shadingMap[0..3][k]\<close>.\<close>

definition planesAt :: "real list list \<Rightarrow> nat \<Rightarrow> (real \<times> real \<times> real \<times> real) option" where
  "planesAt m k =
     (if 4 \<le> length m \<and> k < length (m ! 0) \<and> k < length (m ! 1)
          \<and> k < length (m ! 2) \<and> k < length (m ! 3)
      then Some (m ! 0 ! k, m ! 1 ! k, m ! 2 ! k, m ! 3 ! k) else None)"

record Minima =
  minValue00 :: real
  minValue01 :: real
  minValue10 :: real
  minValue11 :: real

text \<open>Lines 166-181: the per-plane minima over the grid, starting from \<open>10.0f\<close>.\<close>

fun scanMinima :: "real list list \<Rightarrow> nat list \<Rightarrow> Minima \<Rightarrow> Minima option" where
  "scanMinima m [] mins = Some mins"
| "scanMinima m (k # ks) mins =
     (case planesAt m k of
        None \<Rightarrow> None
      | Some (a, b, c, d) \<Rightarrow>
          scanMinima m ks
            \<lparr> minValue00 = (if a < minValue00 mins then a else minValue00 mins),
              minValue01 = (if b < minValue01 mins then b else minValue01 mins),
              minValue10 = (if c < minValue10 mins then c else minValue10 mins),
              minValue11 = (if d < minValue11 mins then d else minValue11 mins) \<rparr>)"

text \<open>
  Lines 183-189: for the patterns with green at positions 1 and 2 the minimum of
  plane 1 is first set to the smaller of the two green minima and then overwritten
  with the minimum of plane 2; for green at positions 0 and 3 likewise with planes 0
  and 3.
\<close>

definition equalizeGreens :: "u8 list \<Rightarrow> Minima \<Rightarrow> Minima" where
  "equalizeGreens cfa mins =
     (if cfa = [0, 1, 1, 2] \<or> cfa = [2, 1, 1, 0] then
        (let mins1 = mins \<lparr> minValue01 := min (minValue01 mins) (minValue10 mins) \<rparr>
         in mins1 \<lparr> minValue01 := minValue10 mins1 \<rparr>)
      else if cfa = [1, 0, 2, 1] \<or> cfa = [1, 2, 0, 1] then
        (let mins1 = mins \<lparr> minValue00 := min (minValue00 mins) (minValue11 mins) \<rparr>
         in mins1 \<lparr> minValue00 := minValue11 mins1 \<rparr>)
      else mins)"

text \<open>\<open>bool aggressive = false;\<close> (line 164), a constant of the function.\<close>

definition aggressive :: bool where
  "aggressive = False"

text \<open>
  Lines 193-202, one grid cell: with \<open>aggressive\<close> the gains are first divided by
  the per-plane minima; then every channel is divided by the smallest of the four.
\<close>

definition fdiv :: "real \<Rightarrow> real \<Rightarrow> real option" where
  "fdiv x y = (if y = 0 then None else Some (x / y))"

definition cellGains :: "Minima \<Rightarrow> real \<times> real \<times> real \<times> real \<Rightarrow> (real \<times> real \<times> real \<times> real) option" where
  "cellGains mins g =
     (case g of (a, b, c, d) \<Rightarrow>
        if aggressive then do {
          a' \<leftarrow> fdiv a (minValue00 mins);
          b' \<leftarrow> fdiv b (minValue01 mins);
          c' \<leftarrow> fdiv c (minValue10 mins);
          d' \<leftarrow> fdiv d (minValue11 mins);
          Some (a', b', c', d')
        } else Some g)"

definition localMinValue :: "real \<times> real \<times> real \<times> real \<Rightarrow> real" where
  "localMinValue g = (case g of (a, b, c, d) \<Rightarrow> min a (min b (min c d)))"

definition setCell :: "real list list \<Rightarrow> nat \<Rightarrow> real \<times> real \<times> real \<times> real \<Rightarrow> real list list" where
  "setCell m k g =
     (case g of (a, b, c, d) \<Rightarrow>
        map (\<lambda>ch. if ch = 0 then (m ! ch) [k := a] else if ch = 1 then (m ! ch) [k := b]
                  else if ch = 2 then (m ! ch) [k := c] else if ch = 3 then (m ! ch) [k := d]
                  else m ! ch) [0..<length m])"

definition divideCell :: "Minima \<Rightarrow> real list list \<Rightarrow> nat \<Rightarrow> ShadingError + real list list" where
  "divideCell mins m k =
     (case planesAt m k of
        None \<Rightarrow> Inl ShadingOutOfBounds
      | Some g0 \<Rightarrow>
         (case cellGains mins g0 of
            None \<Rightarrow> Inl ShadingNonFinite
          | Some g \<Rightarrow>
             (case g of (a, b, c, d) \<Rightarrow>
                if localMinValue g = 0 then Inl ShadingNonFinite
                else Inr (setCell m k (a / localMinValue g, b / localMinValue g,
                                       c / localMinValue g, d / localMinValue g)))))"

fun divideCells :: "Minima \<Rightarrow> real list list \<Rightarrow> nat list \<Rightarrow> ShadingError + real list list" where
  "divideCells mins m [] = Inr m"
| "divideCells mins m (k # ks) =
     (case divideCell mins m k of Inl e \<Rightarrow> Inl e | Inr m' \<Rightarrow> divideCells mins m' ks)"

definition scannedMinima :: "real list list \<Rightarrow> int \<Rightarrow> int \<Rightarrow> Minima option" where
  "scannedMinima m w h =
     scanMinima m (gridIndices w h)
       \<lparr> minValue00 = 10, minValue01 = 10, minValue10 = 10, minValue11 = 10 \<rparr>"

definition colorOnlyShadingMap ::
  "real list list \<Rightarrow> int \<Rightarrow> int \<Rightarrow> u8 list \<Rightarrow> ShadingError + real list list" where
  "colorOnlyShadingMap shadingMap lensShadingMapWidth lensShadingMapHeight cfa =
     (if shadingMap = [] \<or> shadingMap ! 0 = [] then Inr shadingMap
      else if maxGain shadingMap = 0 then Inr shadingMap
      else case scannedMinima shadingMap lensShadingMapWidth lensShadingMapHeight of
             None \<Rightarrow> Inl ShadingOutOfBounds
           | Some mins \<Rightarrow>
               divideCells (equalizeGreens cfa mins) shadingMap
                 (gridIndices lensShadingMapWidth lensShadingMapHeight))"

text \<open>The smallest of the four channel gains of cell \<open>k\<close> of a map with four planes.\<close>

definition cellMin :: "real list list \<Rightarrow> nat \<Rightarrow> real" where
  "cellMin m k = min (m ! 0 ! k) (min (m ! 1 ! k) (min (m ! 2 ! k) (m ! 3 ! k)))"

text \<open>A map of exactly four planes of \<open>n\<close> gains each, and a cell of positive gains.\<close>

definition goodMap :: "real list list \<Rightarrow> nat \<Rightarrow> bool" where
  "goodMap m n \<longleftrightarrow> length m = 4 \<and> (\<forall>p \<in> set m. length p = n)"

definition positiveCell :: "real list list \<Rightarrow> nat \<Rightarrow> bool" where
  "positiveCell m k \<longleftrightarrow> 0 < m ! 0 ! k \<and> 0 < m ! 1 ! k \<and> 0 < m ! 2 ! k \<and> 0 < m ! 3 ! k"

section \<open>Bit packing (Utils.cpp, encodeTo...Bit)\<close>

text \<open>
  Every encoder reads the byte vector \<open>data\<close> through a \<open>uint16_t*\<close> and writes
  the packed bytes to the front of the same vector; the write position never
  passes the read position, so the model reads the 16-bit view \<open>src\<close> and returns
  the packed bytes. One loop step handles one group of samples; a group that is
  not completely inside the buffer is an out-of-bounds read (\<open>None\<close>). The byte
  expressions are evaluated in \<open>int\<close> and converted to \<open>uint8_t\<close>, which keeps the
  low 8 bits; on 16-bit operands the low 8 bits of the 16-bit result are the same.
\<close>

fun encode8 :: "nat \<Rightarrow> u16 list \<Rightarrow> u8 list option" where
  "encode8 0 src = Some []"
| "encode8 (Suc n) (p0 # rest) =
     map_option (\<lambda>bs. ucast (p0 AND 0xFF) # bs) (encode8 n rest)"
| "encode8 (Suc n) [] = None"

definition encodeTo8Bit :: "u16 list \<Rightarrow> nat \<Rightarrow> nat \<Rightarrow> u8 list option" where
  "encodeTo8Bit src width height = encode8 (height * width) src"

definition bytes10 :: "u16 \<Rightarrow> u16 \<Rightarrow> u16 \<Rightarrow> u16 \<Rightarrow> u8 list" where
  "bytes10 p0 p1 p2 p3 =
     [ucast (drop_bit 2 p0),
      ucast (push_bit 6 (p0 AND 0x03) OR drop_bit 4 p1),
      ucast (push_bit 4 (p1 AND 0x0F) OR drop_bit 6 p2),
      ucast (push_bit 2 (p2 AND 0x3F) OR drop_bit 8 p3),
      ucast (p3 AND 0xFF)]"

fun encode10 :: "nat \<Rightarrow> u16 list \<Rightarrow> u8 list option" where
  "encode10 0 src = Some []"
| "encode10 (Suc n) (p0 # p1 # p2 # p3 # rest) =
     map_option (\<lambda>bs. bytes10 p0 p1 p2 p3 @ bs) (encode10 n rest)"
| "encode10 (Suc n) src = None"

definition encodeTo10Bit :: "u16 list \<Rightarrow> nat \<Rightarrow> nat \<Rightarrow> u8 list option" where
  "encodeTo10Bit src width height = encode10 (height * ((width + 3) div 4)) src"

definition bytes12 :: "u16 \<Rightarrow> u16 \<Rightarrow> u8 list" where
  "bytes12 p0 p1 =
     [ucast (drop_bit 4 p0),
      ucast (push_bit 4 (p0 AND 0x0F) OR drop_bit 8 p1),
      ucast (p1 AND 0xFF)]"

fun encode12 :: "nat \<Rightarrow> u16 list \<Rightarrow> u8 list option" where
  "encode12 0 src = Some []"
| "encode12 (Suc n) (p0 # p1 # rest) =
     map_option (\<lambda>bs. bytes12 p0 p1 @ bs) (encode12 n rest)"
| "encode12 (Suc n) src = None"

definition encodeTo12Bit :: "u16 list \<Rightarrow> nat \<Rightarrow> nat \<Rightarrow> u8 list option" where
  "encodeTo12Bit src width height = encode12 (height * ((width + 1) div 2)) src"

definition bytes14 :: "u16 \<Rightarrow> u16 \<Rightarrow> u16 \<Rightarrow> u16 \<Rightarrow> u8 list" where
  "bytes14 p0 p1 p2 p3 =
     [ucast (drop_bit 6 p0),
      ucast (push_bit 2 (p0 AND 0x3F) OR drop_bit 12 p1),
      ucast (drop_bit 4 p1 AND 0xFF),
      ucast (push_bit 4 (p1 AND 0x0F) OR drop_bit 10 p2),
      ucast (drop_bit 2 p2 AND 0xFF),
      ucast (push_bit 6 (p2 AND 0x03) OR drop_bit 8 p3),
      ucast (p3 AND 0xFF)]"

fun encode14 :: "nat \<Rightarrow> u16 list \<Rightarrow> u8 list option" where
  "encode14 0 src = Some []"
| "encode14 (Suc n) (p0 # p1 # p2 # p3 # rest) =
     map_option (\<lambda>bs. bytes14 p0 p1 p2 p3 @ bs) (encode14 n rest)"
| "encode14 (Suc n) src = None"

definition encodeTo14Bit :: "u16 list \<Rightarrow> nat \<Rightarrow> nat \<Rightarrow> u8 list option" where
  "encodeTo14Bit src width height = encode14 (height * ((width + 3) div 4)) src"

text \<open>The 6-bit encoder first cuts every sample to a \<open>uint8_t\<close> of 6 bits.\<close>

definition bytes6 :: "u16 \<Rightarrow> u16 \<Rightarrow> u16 \<Rightarrow> u16 \<Rightarrow> u8 list" where
  "bytes6 p0 p1 p2 p3 =
     (let v0 = ucast (p0 AND 0x3F) :: u8; v1 = ucast (p1 AND 0x3F) :: u8;
          v2 = ucast (p2 AND 0x3F) :: u8; v3 = ucast (p3 AND 0x3F) :: u8
      in [push_bit 2 v0 OR drop_bit 4 v1,
          push_bit 4 (v1 AND 0x0F) OR drop_bit 2 v2,
          push_bit 6 (v2 AND 0x03) OR v3])"

fun encode6 :: "nat \<Rightarrow> u16 list \<Rightarrow> u8 list option" where
  "encode6 0 src = Some []"
| "encode6 (Suc n) (p0 # p1 # p2 # p3 # rest) =
     map_option (\<lambda>bs. bytes6 p0 p1 p2 p3 @ bs) (encode6 n rest)"
| "encode6 (Suc n) src = None"

definition encodeTo6Bit :: "u16 list \<Rightarrow> nat \<Rightarrow> nat \<Rightarrow> u8 list option" where
  "encodeTo6Bit src width height = encode6 (height * ((width + 3) div 4)) src"

definition bytes4 :: "u16 \<Rightarrow> u16 \<Rightarrow> u8 list" where
  "bytes4 p0 p1 =
     (let v0 = ucast (p0 AND 0x0F) :: u8; v1 = ucast (p1 AND 0x0F) :: u8
      in [push_bit 4 v0 OR v1])"

fun encode4 :: "nat \<Rightarrow> u16 list \<Rightarrow> u8 list option" where
  "encode4 0 src = Some []"
| "encode4 (Suc n) (p0 # p1 # rest) =
     map_option (\<lambda>bs. bytes4 p0 p1 @ bs) (encode4 n rest)"
| "encode4 (Suc n) src = None"

definition encodeTo4Bit :: "u16 list \<Rightarrow> nat \<Rightarrow> nat \<Rightarrow> u8 list option" where
  "encodeTo4Bit src width height = encode4 (height * ((width + 1) div 2)) src"

definition bytes2 :: "u16 \<Rightarrow> u16 \<Rightarrow> u16 \<Rightarrow> u16 \<Rightarrow> u8 list" where
  "bytes2 p0 p1 p2 p3 =
     [ucast (push_bit 6 (p0 AND 0x03) OR push_bit 4 (p1 AND 0x03)
             OR push_bit 2 (p2 AND 0x03) OR (p3 AND 0x03))]"

fun encode2 :: "nat \<Rightarrow> u16 list \<Rightarrow> u8 list option" where
  "encode2 0 src = Some []"
| "encode2 (Suc n) (p0 # p1 # p2 # p3 # rest) =
     map_option (\<lambda>bs. bytes2 p0 p1 p2 p3 @ bs) (encode2 n rest)"
| "encode2 (Suc n) src = None"

definition encodeTo2Bit :: "u16 list \<Rightarrow> nat \<Rightarrow> nat \<Rightarrow> u8 list option" where
  "encodeTo2Bit src width height = encode2 (height * ((width + 3) div 4)) src"

text \<open>The bytes of the 16-bit buffer as they lie in memory (little-endian host).\<close>

definition u16Bytes :: "u16 list \<Rightarrow> u8 list" where
  "u16Bytes src = concat (map (\<lambda>p. [ucast p, ucast (drop_bit 8 p)]) src)"

text \<open>
  The choice of the encoder in \<open>generateDng\<close> (lines 1120-1152): the smallest
  width of 2, 4, ..., 14 that covers \<open>encodeBits\<close>; above 14 the buffer is
  written as it is.
\<close>

definition packSamples :: "nat \<Rightarrow> u16 list \<Rightarrow> nat \<Rightarrow> nat \<Rightarrow> u8 list option" where
  "packSamples encodeBits src width height =
     (if encodeBits \<le> 2 then encodeTo2Bit src width height
      else if encodeBits \<le> 4 then encodeTo4Bit src width height
      else if encodeBits \<le> 6 then encodeTo6Bit src width height
      else if encodeBits \<le> 8 then encodeTo8Bit src width height
      else if encodeBits \<le> 10 then encodeTo10Bit src width height
      else if encodeBits \<le> 12 then encodeTo12Bit src width height
      else if encodeBits \<le> 14 then encodeTo14Bit src width height
      else Some (u16Bytes src))"

section \<open>Bit unpacking (mcraw-decoder.ts, unpackBits)\<close>

text \<open>
  The bytes of the \<open>Uint8Array\<close> enter 32-bit integer arithmetic; a store into the
  \<open>Uint16Array\<close> keeps the low 16 bits, and a store past its end is ignored (as
  \<open>list_update\<close> does). \<open>DataView.getUint16\<close> throws a \<open>RangeError\<close> when the
  two bytes are not inside the view.
\<close>

datatype JsError = RangeError

definition b32 :: "u8 \<Rightarrow> u32" where
  "b32 b = ucast b"

text \<open>The samples of one 5-byte group of the 10-bit branch, and of one 3-byte group
  of the 12-bit branch, each shifted left by \<open>shift = 16 - bits\<close>.\<close>

definition dec10_0 :: "nat \<Rightarrow> u8 \<Rightarrow> u8 \<Rightarrow> u16" where
  "dec10_0 shift c0 c1 = ucast (push_bit shift (push_bit 2 (b32 c0) OR drop_bit 6 (b32 c1)))"

definition dec10_1 :: "nat \<Rightarrow> u8 \<Rightarrow> u8 \<Rightarrow> u16" where
  "dec10_1 shift c1 c2 = ucast (push_bit shift (push_bit 4 (b32 c1 AND 0x3F) OR drop_bit 4 (b32 c2)))"

definition dec10_2 :: "nat \<Rightarrow> u8 \<Rightarrow> u8 \<Rightarrow> u16" where
  "dec10_2 shift c2 c3 = ucast (push_bit shift (push_bit 6 (b32 c2 AND 0x0F) OR drop_bit 2 (b32 c3)))"

definition dec10_3 :: "nat \<Rightarrow> u8 \<Rightarrow> u8 \<Rightarrow> u16" where
  "dec10_3 shift c3 c4 = ucast (push_bit shift (push_bit 8 (b32 c3 AND 0x03) OR b32 c4))"

definition dec12_0 :: "nat \<Rightarrow> u8 \<Rightarrow> u8 \<Rightarrow> u16" where
  "dec12_0 shift c0 c1 = ucast (push_bit shift (push_bit 4 (b32 c0) OR drop_bit 4 (b32 c1)))"

definition dec12_1 :: "nat \<Rightarrow> u8 \<Rightarrow> u8 \<Rightarrow> u16" where
  "dec12_1 shift c1 c2 = ucast (push_bit shift (push_bit 8 (b32 c1 AND 0x0F) OR b32 c2))"

text \<open>\<open>view.getUint16(i * 2, true)\<close>: the little-endian 16-bit word of two bytes.\<close>

definition le16 :: "u8 \<Rightarrow> u8 \<Rightarrow> u16" where
  "le16 lo hi = ucast lo OR push_bit 8 (ucast hi)"

function unpack10 :: "u8 list \<Rightarrow> nat \<Rightarrow> nat \<Rightarrow> nat \<Rightarrow> nat \<Rightarrow> u16 list \<Rightarrow> u16 list" where
  "unpack10 packed pixelCount shift i j result =
     (if i + 3 < pixelCount \<and> j + 4 < length packed then
        unpack10 packed pixelCount shift (i + 4) (j + 5)
          (result
            [i := dec10_0 shift (packed ! j) (packed ! (j + 1)),
             i + 1 := dec10_1 shift (packed ! (j + 1)) (packed ! (j + 2)),
             i + 2 := dec10_2 shift (packed ! (j + 2)) (packed ! (j + 3)),
             i + 3 := dec10_3 shift (packed ! (j + 3)) (packed ! (j + 4))])
      else result)"
  by pat_completeness auto
termination
  by (relation "measure (\<lambda>(packed, pixelCount, shift, i, j, result). pixelCount - i)") auto

function unpack12 :: "u8 list \<Rightarrow> nat \<Rightarrow> nat \<Rightarrow> nat \<Rightarrow> nat \<Rightarrow> u16 list \<Rightarrow> u16 list" where
  "unpack12 packed pixelCount shift i j result =
     (if i + 1 < pixelCount \<and> j + 2 < length packed then
        unpack12 packed pixelCount shift (i + 2) (j + 3)
          (result
            [i := dec12_0 shift (packed ! j) (packed ! (j + 1)),
             i + 1 := dec12_1 shift (packed ! (j + 1)) (packed ! (j + 2))])
      else result)"
  by pat_completeness auto
termination
  by (relation "measure (\<lambda>(packed, pixelCount, shift, i, j, result). pixelCount - i)") auto

text \<open>
  The fallback loop runs while \<open>i < Math.min(pixelCount, packed.length / 2)\<close>; the
  division is not an integer division, so for an odd length the last step reads a
  16-bit word that has only one byte inside the view.
\<close>

function unpack16 :: "u8 list \<Rightarrow> nat \<Rightarrow> nat \<Rightarrow> u16 list \<Rightarrow> JsError + u16 list" where
  "unpack16 packed pixelCount i result =
     (if i < pixelCount \<and> 2 * i < length packed then
        (if 2 * i + 2 \<le> length packed then
           unpack16 packed pixelCount (i + 1)
             (result [i := le16 (packed ! (2 * i)) (packed ! (2 * i + 1))])
         else Inl RangeError)
      else Inr result)"
  by pat_completeness auto
termination
  by (relation "measure (\<lambda>(packed, pixelCount, i, result). pixelCount - i)") auto

definition unpackBits :: "u8 list \<Rightarrow> nat \<Rightarrow> nat \<Rightarrow> JsError + u16 list" where
  "unpackBits packed pixelCount bits =
     (let result = replicate pixelCount 0; shift = 16 - bits in
      if bits = 10 then Inr (unpack10 packed pixelCount shift 0 0 result)
      else if bits = 12 then Inr (unpack12 packed pixelCount shift 0 0 result)
      else unpack16 packed pixelCount 0 result)"

text \<open>Packing a \<open>width\<close> x \<open>height\<close> buffer and unpacking the result again.\<close>

definition roundTrip :: "nat \<Rightarrow> u16 list \<Rightarrow> nat \<Rightarrow> nat \<Rightarrow> (JsError + u16 list) option" where
  "roundTrip bits src width height =
     map_option (\<lambda>packed. unpackBits packed (width * height) bits) (packSamples bits src width height)"

section \<open>Frame index of the MCRAW parser (mcraw-decoder.ts)\<close>

text \<open>
  \<open>FrameInfo\<close>. The per-frame metadata is kept as far as the scans read it: the
  \<open>timestamp\<close> field of the JSON fragment in front of the frame, when it is a
  number. Numbers are doubles in the source and reals here; \<open>1000000 / 24\<close> and
  \<open>1000 / 24\<close> are the exact fractions.
\<close>

type_synonym PerFrameMetadata = "real option"

record FrameInfo =
  f_offset :: nat
  f_size :: nat
  f_blockType :: nat
  f_isCompressed :: bool
  f_timestamp :: real
  f_perFrameMetadata :: "PerFrameMetadata option"

text \<open>
  The fields of the container's JSON document that the scans read; a field that is
  absent (or 0, which JavaScript's \<open>||\<close> treats alike) is 0.
\<close>

record RawMetadata =
  sensorWidth :: nat
  sensorHeight :: nat
  numSegments :: int
  outputWidth :: nat
  outputHeight :: nat
  forwardMatrixLength :: nat

definition BLOCK_TYPE_FRAME :: nat where
  "BLOCK_TYPE_FRAME = 2"

definition BLOCK_TYPE_AUDIO :: nat where
  "BLOCK_TYPE_AUDIO = 3"

text \<open>
  \<open>view.getUint32(offset, true)\<close>, little-endian. Every call of the scans stands
  behind a loop condition that keeps the four bytes inside the file.
\<close>

definition u32le :: "u8 list \<Rightarrow> nat \<Rightarrow> nat" where
  "u32le bytes off =
     unat (bytes ! off) + 256 * unat (bytes ! (off + 1))
       + 65536 * unat (bytes ! (off + 2)) + 16777216 * unat (bytes ! (off + 3))"

definition isZstdCompressed :: "u8 list \<Rightarrow> nat \<Rightarrow> bool" where
  "isZstdCompressed bytes off =
     (if off + 4 > length bytes then False
      else bytes ! off = 0x28 \<and> bytes ! (off + 1) = 0xb5
           \<and> bytes ! (off + 2) = 0x2f \<and> bytes ! (off + 3) = 0xfd)"

text \<open>
  Lines 288-290. \<open>blockSize < expected12BitSize * 0.9\<close> compares an integer with a
  double product; it holds exactly when \<open>10 * blockSize < 9 * expected12BitSize\<close>
  (the product is the exact integer when nine tenths of the size is an integer, and
  at least 0.1 away from every integer otherwise).
\<close>

definition expected12BitSize :: "'a RawMetadata_scheme \<Rightarrow> nat" where
  "expected12BitSize raw =
     (let width = (if sensorWidth raw = 0 then 4032 else sensorWidth raw);
          height = (if sensorHeight raw = 0 then 3024 else sensorHeight raw)
      in (width * height * 12) div 8)"

text \<open>\<open>frameMetadata.timestamp || fallback\<close>: a timestamp of 0 counts as absent.\<close>

definition timestampOr :: "PerFrameMetadata \<Rightarrow> real \<Rightarrow> real" where
  "timestampOr frameMetadata fallback =
     (case frameMetadata of None \<Rightarrow> fallback | Some t \<Rightarrow> if t = 0 then fallback else t)"

text \<open>
  Strategy 1, \<open>scanTypePrefixedBlocks\<close> (lines 280-380). \<open>parseMeta\<close> stands for
  \<open>JSON.parse(new TextDecoder().decode(audioData))\<close> followed by the read of
  \<open>.timestamp\<close>: \<open>None\<close> when the bytes are not JSON. The loop state is the
  offset, the frame count, the count of consecutive invalid headers, the metadata
  waiting for the next frame, and the frame list.
\<close>

definition blockSizeAt :: "u8 list \<Rightarrow> nat \<Rightarrow> nat" where
  "blockSizeAt bytes off = u32le bytes (off + 4)"

definition isValidFrame :: "u8 list \<Rightarrow> nat \<Rightarrow> bool" where
  "isValidFrame bytes off \<longleftrightarrow>
     u32le bytes off = BLOCK_TYPE_FRAME \<and> blockSizeAt bytes off \<ge> 1024
       \<and> blockSizeAt bytes off \<le> 50 * 1024 * 1024"

definition isValidAudio :: "u8 list \<Rightarrow> nat \<Rightarrow> bool" where
  "isValidAudio bytes off \<longleftrightarrow>
     u32le bytes off = BLOCK_TYPE_AUDIO \<and> blockSizeAt bytes off \<ge> 100
       \<and> blockSizeAt bytes off \<le> 10 * 1024 * 1024"

text \<open>The record pushed for a valid frame block at \<open>off\<close> (lines 330-344);
  \<open>currentFrameMetadata || {}\<close> is the metadata of the preceding JSON block or an
  empty object.\<close>

definition typedFrame :: "nat \<Rightarrow> u8 list \<Rightarrow> nat \<Rightarrow> nat \<Rightarrow> PerFrameMetadata option \<Rightarrow> FrameInfo" where
  "typedFrame expected12 bytes off frameCount currentFrameMetadata =
     (let blockSize = blockSizeAt bytes off;
          frameMetadata = (case currentFrameMetadata of None \<Rightarrow> None | Some m \<Rightarrow> m)
      in \<lparr> f_offset = off + 8, f_size = blockSize, f_blockType = BLOCK_TYPE_FRAME,
           f_isCompressed = (10 * blockSize < 9 * expected12),
           f_timestamp = timestampOr frameMetadata (real frameCount * (1000000 / 24)),
           f_perFrameMetadata = Some frameMetadata \<rparr>)"

text \<open>The metadata kept after an audio block (lines 352-375): the parsed JSON, or
  what was there before when the block is not JSON.\<close>

definition audioMetadata ::
  "(u8 list \<Rightarrow> PerFrameMetadata option) \<Rightarrow> u8 list \<Rightarrow> nat \<Rightarrow> PerFrameMetadata option
     \<Rightarrow> PerFrameMetadata option" where
  "audioMetadata parseMeta bytes off currentFrameMetadata =
     (case parseMeta (take (blockSizeAt bytes off) (drop (off + 8) bytes)) of
        Some m \<Rightarrow> Some m | None \<Rightarrow> currentFrameMetadata)"

function scanTyped ::
  "(u8 list \<Rightarrow> PerFrameMetadata option) \<Rightarrow> nat \<Rightarrow> u8 list \<Rightarrow> nat \<Rightarrow> nat \<Rightarrow> nat
     \<Rightarrow> PerFrameMetadata option \<Rightarrow> FrameInfo list \<Rightarrow> nat \<times> FrameInfo list" where
  "scanTyped parseMeta expected12 bytes off frameCount invalid currentFrameMetadata infos =
     (if off + 8 < length bytes \<and> invalid < 5 then
        (if \<not> isValidFrame bytes off \<and> \<not> isValidAudio bytes off then
           scanTyped parseMeta expected12 bytes (off + 1) frameCount (invalid + 1)
             currentFrameMetadata infos
         else if isValidFrame bytes off then
           scanTyped parseMeta expected12 bytes (off + 8 + blockSizeAt bytes off) (frameCount + 1) 0 None
             (infos @ [typedFrame expected12 bytes off frameCount currentFrameMetadata])
         else
           scanTyped parseMeta expected12 bytes (off + 8 + blockSizeAt bytes off) frameCount 0
             (audioMetadata parseMeta bytes off currentFrameMetadata) infos)
      else (frameCount, infos))"
  by pat_completeness auto
termination
  by (relation "measure (\<lambda>(parseMeta, expected12, bytes, off, rest). length bytes - off)") auto

definition scanTypePrefixedBlocks ::
  "(u8 list \<Rightarrow> PerFrameMetadata option) \<Rightarrow> 'a RawMetadata_scheme \<Rightarrow> u8 list \<Rightarrow> nat
     \<Rightarrow> FrameInfo list \<Rightarrow> nat \<times> FrameInfo list" where
  "scanTypePrefixedBlocks parseMeta raw bytes startOffset infos =
     scanTyped parseMeta (expected12BitSize raw) bytes startOffset 0 0 None infos"

text \<open>Strategy 2, \<open>scanSizePrefixedZstd\<close> (lines 382-406); it returns
  \<open>this.frameInfos.length\<close>.\<close>

definition isSizedZstdFrame :: "u8 list \<Rightarrow> nat \<Rightarrow> bool" where
  "isSizedZstdFrame bytes off \<longleftrightarrow>
     u32le bytes off \<ge> 1024 \<and> u32le bytes off \<le> 50 * 1024 * 1024
       \<and> off + 4 + u32le bytes off \<le> length bytes \<and> isZstdCompressed bytes (off + 4)"

definition sizedFrame :: "u8 list \<Rightarrow> nat \<Rightarrow> nat \<Rightarrow> FrameInfo" where
  "sizedFrame bytes off count =
     \<lparr> f_offset = off + 4, f_size = u32le bytes off, f_blockType = BLOCK_TYPE_FRAME,
       f_isCompressed = True, f_timestamp = real count * (1000 / 24),
       f_perFrameMetadata = None \<rparr>"

function scanSizePrefixedZstd :: "u8 list \<Rightarrow> nat \<Rightarrow> FrameInfo list \<Rightarrow> FrameInfo list" where
  "scanSizePrefixedZstd bytes off infos =
     (if off + 8 < length bytes then
        (if isSizedZstdFrame bytes off
         then scanSizePrefixedZstd bytes (off + 4 + u32le bytes off)
                (infos @ [sizedFrame bytes off (length infos)])
         else infos)
      else infos)"
  by pat_completeness auto
termination
  by (relation "measure (\<lambda>(bytes, off, infos). length bytes - off)") auto

text \<open>
  Strategy 3, \<open>scanZstdMagic\<close> (lines 408-444): first the offsets of the zstd
  signatures (after a hit the scan skips 100 bytes), then one frame from each
  signature to the next one or to the end of the file, kept when its size is
  between 100 bytes and 100 MiB. The timestamp is taken from the index of the
  signature.
\<close>

definition zstdMagicAt :: "u8 list \<Rightarrow> nat \<Rightarrow> bool" where
  "zstdMagicAt bytes i \<longleftrightarrow>
     bytes ! i = 0x28 \<and> bytes ! (i + 1) = 0xb5 \<and> bytes ! (i + 2) = 0x2f \<and> bytes ! (i + 3) = 0xfd"

function findZstdMagic :: "u8 list \<Rightarrow> nat \<Rightarrow> nat list \<Rightarrow> nat list" where
  "findZstdMagic bytes i frameOffsets =
     (if i + 4 < length bytes then
        (if zstdMagicAt bytes i
         then findZstdMagic bytes (i + 100 + 1) (frameOffsets @ [i])
         else findZstdMagic bytes (i + 1) frameOffsets)
      else frameOffsets)"
  by pat_completeness auto
termination
  by (relation "measure (\<lambda>(bytes, i, frameOffsets). length bytes - i)") auto

definition magicFrame :: "u8 list \<Rightarrow> nat list \<Rightarrow> nat \<Rightarrow> FrameInfo list" where
  "magicFrame bytes frameOffsets i =
     (let off = frameOffsets ! i;
          nextOffset = (if i + 1 < length frameOffsets then frameOffsets ! (i + 1) else length bytes);
          sz = nextOffset - off
      in if sz \<ge> 100 \<and> sz \<le> 100 * 1024 * 1024
         then [\<lparr> f_offset = off, f_size = sz, f_blockType = BLOCK_TYPE_FRAME,
                 f_isCompressed = True, f_timestamp = real i * (1000 / 24),
                 f_perFrameMetadata = None \<rparr>]
         else [])"

definition scanZstdMagic :: "u8 list \<Rightarrow> nat \<Rightarrow> FrameInfo list \<Rightarrow> FrameInfo list" where
  "scanZstdMagic bytes startOffset infos =
     (let frameOffsets = findZstdMagic bytes startOffset []
      in infos @ concat (map (magicFrame bytes frameOffsets) [0..<length frameOffsets]))"

text \<open>Strategy 4, \<open>applyFixedFrameSize\<close> (lines 446-476).\<close>

definition fixedFrame :: "u8 list \<Rightarrow> nat \<Rightarrow> nat \<Rightarrow> nat \<Rightarrow> FrameInfo list" where
  "fixedFrame bytes startOffset frameSize i =
     (let off = startOffset + i * frameSize
      in if off + frameSize \<le> length bytes
         then [\<lparr> f_offset = off, f_size = frameSize, f_blockType = BLOCK_TYPE_FRAME,
                 f_isCompressed = isZstdCompressed bytes off,
                 f_timestamp = real i * (1000 / 24), f_perFrameMetadata = None \<rparr>]
         else [])"

definition applyFixedFrameSize ::
  "'a RawMetadata_scheme \<Rightarrow> u8 list \<Rightarrow> nat \<Rightarrow> FrameInfo list \<Rightarrow> FrameInfo list" where
  "applyFixedFrameSize raw bytes startOffset infos =
     (if numSegments raw \<le> 0 then infos
      else let dataSize = length bytes - startOffset;
               frameSize = dataSize div nat (numSegments raw)
           in if frameSize < 1024 then infos
              else infos @ concat (map (fixedFrame bytes startOffset frameSize)
                                       [0..<nat (numSegments raw)]))"

text \<open>
  Strategy 5, \<open>scanRawBayerBlocks\<close> (lines 478-524). The conditional operator binds
  weaker than \<open>||\<close>, so the width is 4032 whenever \<open>outputWidth\<close> or the forward
  matrix is present, and 0 otherwise; the height likewise is 3024 or 0.
\<close>

definition rawFrame :: "nat \<Rightarrow> nat \<Rightarrow> nat \<Rightarrow> FrameInfo" where
  "rawFrame startOffset expectedFrameSize i =
     \<lparr> f_offset = startOffset + i * expectedFrameSize, f_size = expectedFrameSize,
       f_blockType = BLOCK_TYPE_FRAME, f_isCompressed = False,
       f_timestamp = real i * (1000 / 24), f_perFrameMetadata = None \<rparr>"

definition scanRawBayerBlocks ::
  "'a RawMetadata_scheme \<Rightarrow> u8 list \<Rightarrow> nat \<Rightarrow> FrameInfo list \<Rightarrow> FrameInfo list" where
  "scanRawBayerBlocks raw bytes startOffset infos =
     (let width = (if outputWidth raw \<noteq> 0 \<or> forwardMatrixLength raw > 0 then 4032 else 0 :: nat);
          height = (if outputHeight raw \<noteq> 0 \<or> forwardMatrixLength raw > 0 then 3024 else 0 :: nat)
      in if width = 0 \<or> height = 0 then infos
         else let expectedFrameSize = width * height * 2;
                  dataSize = length bytes - startOffset;
                  possibleFrames = dataSize div expectedFrameSize
              in if possibleFrames = 0 then infos
                 else infos @ map (rawFrame startOffset expectedFrameSize) [0..<possibleFrames])"

text \<open>
  \<open>scanFrameBlocks\<close> (lines 233-278): the strategies in order, stopping at the
  first that reports a frame. Strategy 1 reports its own frame count, the others
  the length of the frame list. \<open>parse\<close> starts it on the empty list.
\<close>

definition scanFrameBlocks ::
  "(u8 list \<Rightarrow> PerFrameMetadata option) \<Rightarrow> 'a RawMetadata_scheme \<Rightarrow> u8 list \<Rightarrow> nat \<Rightarrow> FrameInfo list" where
  "scanFrameBlocks parseMeta raw bytes startOffset =
     (let r1 = scanTypePrefixedBlocks parseMeta raw bytes startOffset [] in
      if fst r1 > 0 then snd r1
      else let i2 = scanSizePrefixedZstd bytes startOffset (snd r1) in
      if length i2 > 0 then i2
      else let i3 = scanZstdMagic bytes startOffset i2 in
      if length i3 > 0 then i3
      else let i4 = applyFixedFrameSize raw bytes startOffset i3 in
      if length i4 > 0 then i4
      else scanRawBayerBlocks raw bytes startOffset i4)"

text \<open>
  The rules the strategies follow for the two derived fields of a frame record: the
  compressed flag set from the size alone, and the timestamp taken from the
  per-frame metadata or else from the position \<open>i\<close> in units of \<open>unit\<close>.
\<close>

definition flagBySize :: "nat \<Rightarrow> FrameInfo \<Rightarrow> bool" where
  "flagBySize expected12 f \<longleftrightarrow> (f_isCompressed f \<longleftrightarrow> 10 * f_size f < 9 * expected12)"

definition stamped :: "real \<Rightarrow> nat \<Rightarrow> FrameInfo \<Rightarrow> bool" where
  "stamped unit i f \<longleftrightarrow>
     f_timestamp f
       = timestampOr (case f_perFrameMetadata f of None \<Rightarrow> None | Some m \<Rightarrow> m) (real i * unit)"

definition zstdFlagged :: "u8 list \<Rightarrow> FrameInfo \<Rightarrow> bool" where
  "zstdFlagged bytes f \<longleftrightarrow> f_isCompressed f \<and> isZstdCompressed bytes (f_offset f)"

text \<open>Example inputs: the metadata of a 32 x 32 sensor, a typed frame block of 1024
  zero bytes, and a typed frame block of 1400 bytes that starts with the zstd
  signature.\<close>

definition sensor32 :: RawMetadata where
  "sensor32 = \<lparr> sensorWidth = 32, sensorHeight = 32, numSegments = 0, outputWidth = 0,
                outputHeight = 0, forwardMatrixLength = 0 \<rparr>"

definition zeroBlock :: "u8 list" where
  "zeroBlock = [2, 0, 0, 0, 0, 4, 0, 0] @ replicate 1024 0"

definition zstdBlock :: "u8 list" where
  "zstdBlock = [2, 0, 0, 0, 0x78, 5, 0, 0, 0x28, 0xb5, 0x2f, 0xfd] @ replicate 1396 0"

text \<open>
  The file layout that strategy 1 reads, \<open>[type:u32][size:u32][data]\<close> (line 244):
  a sequence of frame blocks (type 2) and audio blocks (type 3, which may hold the
  per-frame JSON), written behind a prefix \<open>pre\<close> that ends at the start offset.
  A block is valid when its size passes the tests of lines 318-319.
\<close>

datatype TypedBlock = FrameBlock "u8 list" | AudioBlock "u8 list"

definition le32 :: "nat \<Rightarrow> u8 list" where
  "le32 n = [of_nat n, of_nat (n div 256), of_nat (n div 65536), of_nat (n div 16777216)]"

fun encodeBlock :: "TypedBlock \<Rightarrow> u8 list" where
  "encodeBlock (FrameBlock payload) = le32 BLOCK_TYPE_FRAME @ le32 (length payload) @ payload"
| "encodeBlock (AudioBlock payload) = le32 BLOCK_TYPE_AUDIO @ le32 (length payload) @ payload"

definition encodeBlocks :: "TypedBlock list \<Rightarrow> u8 list" where
  "encodeBlocks blocks = concat (map encodeBlock blocks)"

fun validBlock :: "TypedBlock \<Rightarrow> bool" where
  "validBlock (FrameBlock payload) \<longleftrightarrow> 1024 \<le> length payload \<and> length payload \<le> 50 * 1024 * 1024"
| "validBlock (AudioBlock payload) \<longleftrightarrow> 100 \<le> length payload \<and> length payload \<le> 10 * 1024 * 1024"

fun isFrameBlock :: "TypedBlock \<Rightarrow> bool" where
  "isFrameBlock (FrameBlock payload) = True"
| "isFrameBlock (AudioBlock payload) = False"

definition frameCountOf :: "TypedBlock list \<Rightarrow> nat" where
  "frameCountOf blocks = length (filter isFrameBlock blocks)"

text \<open>
  The timestamps of the frames of a sequence of typed blocks, stated over the
  blocks and not over the bytes: frame \<open>i\<close> gets the timestamp of the JSON block in front of it (the last
  audio block since the previous frame that parses as JSON) when that timestamp is
  present and not 0, and \<open>i * 1000000 / 24\<close> otherwise. \<open>pending\<close> is the
  metadata of the JSON block in front of the next frame, if there is one.
\<close>

fun prescribedTimestamps ::
  "(u8 list \<Rightarrow> PerFrameMetadata option) \<Rightarrow> TypedBlock list \<Rightarrow> nat \<Rightarrow> PerFrameMetadata option
     \<Rightarrow> real list" where
  "prescribedTimestamps parseMeta [] i pending = []"
| "prescribedTimestamps parseMeta (FrameBlock payload # blocks) i pending =
     (case pending of
        Some (Some t) \<Rightarrow> if t = 0 then real i * (1000000 / 24) else t
      | _ \<Rightarrow> real i * (1000000 / 24))
     # prescribedTimestamps parseMeta blocks (i + 1) None"
| "prescribedTimestamps parseMeta (AudioBlock payload # blocks) i pending =
     prescribedTimestamps parseMeta blocks i
       (case parseMeta payload of Some m \<Rightarrow> Some m | None \<Rightarrow> pending)"

text \<open>The timestamps strategy 1 gives the frames of such a file.\<close>

definition typedScanTimestamps ::
  "(u8 list \<Rightarrow> PerFrameMetadata option) \<Rightarrow> 'a RawMetadata_scheme \<Rightarrow> u8 list \<Rightarrow> TypedBlock list
     \<Rightarrow> real list" where
  "typedScanTimestamps parseMeta raw pre blocks =
     map f_timestamp
       (snd (scanTypePrefixedBlocks parseMeta raw (pre @ encodeBlocks blocks) (length pre) []))"

text \<open>Example: a JSON block of 100 bytes whose timestamp is 777, and a parser that
  knows this block only.\<close>

definition jsonPayload :: "u8 list" where
  "jsonPayload = replicate 100 0x20"

definition parseExample :: "u8 list \<Rightarrow> PerFrameMetadata option" where
  "parseExample payload = (if payload = jsonPayload then Some (Some 777) else None)"

section \<open>Properties of the quad-Bayer binning\<close>

lemma rd_Some: "i < length buf \<Longrightarrow> rd buf i = Some (buf ! i)"
  by (simp add: rd_def)

lemma unat_sum4_u16: "unat (sum4_u16 a b c d) = (unat a + unat b + unat c + unat d) mod 2 ^ 16"
  unfolding sum4_u16_def by (simp only: unat_of_nat) simp

lemma block_inside:
  assumes "(srcY + 3) * originalWidth + srcX + 3 < length srcData" "dy \<le> 3" "dx \<le> 3"
  shows "(srcY + dy) * originalWidth + srcX + dx < length srcData"
proof -
  from assms(2) have "(srcY + dy) * originalWidth \<le> (srcY + 3) * originalWidth"
    by (simp add: mult_le_mono1)
  with assms show ?thesis by linarith
qed

lemma fetchBlock_binned:
  assumes inside: "(srcY + 3) * originalWidth + srcX + 3 < length srcData"
  shows "fetchBlock 2 2 srcData originalWidth srcY srcX = Some
     [sum4_u16 (srcData ! (srcY * originalWidth + srcX)) (srcData ! (srcY * originalWidth + srcX + 1))
        (srcData ! ((srcY + 1) * originalWidth + srcX)) (srcData ! ((srcY + 1) * originalWidth + srcX + 1)),
      sum4_u16 (srcData ! (srcY * originalWidth + srcX + 2)) (srcData ! (srcY * originalWidth + srcX + 3))
        (srcData ! ((srcY + 1) * originalWidth + srcX + 2)) (srcData ! ((srcY + 1) * originalWidth + srcX + 3)),
      sum4_u16 (srcData ! ((srcY + 2) * originalWidth + srcX)) (srcData ! ((srcY + 2) * originalWidth + srcX + 1))
        (srcData ! ((srcY + 3) * originalWidth + srcX)) (srcData ! ((srcY + 3) * originalWidth + srcX + 1)),
      sum4_u16 (srcData ! ((srcY + 2) * originalWidth + srcX + 2)) (srcData ! ((srcY + 2) * originalWidth + srcX + 3))
        (srcData ! ((srcY + 3) * originalWidth + srcX + 2)) (srcData ! ((srcY + 3) * originalWidth + srcX + 3))]"
proof -
  have r: "\<And>dy dx. dy \<le> 3 \<Longrightarrow> dx \<le> 3 \<Longrightarrow>
      rd srcData ((srcY + dy) * originalWidth + srcX + dx)
        = Some (srcData ! ((srcY + dy) * originalWidth + srcX + dx))"
    by (rule rd_Some) (rule block_inside [OF inside])
  have r0: "\<And>dx. dx \<le> 3 \<Longrightarrow>
      rd srcData (srcY * originalWidth + srcX + dx) = Some (srcData ! (srcY * originalWidth + srcX + dx))"
    using r [of 0] by simp
  have rx0: "\<And>dy. dy \<le> 3 \<Longrightarrow>
      rd srcData ((srcY + dy) * originalWidth + srcX) = Some (srcData ! ((srcY + dy) * originalWidth + srcX))"
    using r [of _ 0] by simp
  have r00: "rd srcData (srcY * originalWidth + srcX) = Some (srcData ! (srcY * originalWidth + srcX))"
    using r [of 0 0] by simp
  have n: "(1::nat) \<le> 3" "(2::nat) \<le> 3" "(3::nat) \<le> 3" by simp_all
  show ?thesis
    unfolding fetchBlock_def
    by (simp only: r r0 rx0 r00 n bind.bind_lunit simp_thms if_True)
qed

text \<open>
  Claim C10. In quad-Bayer 2x2 binning mode (interpret-as-quad-Bayer, so
  \<open>cfaSize = 2\<close>, with draft scale 2) the source black and white levels are
  multiplied by 4, and every binned sample handed to the linearisation is the sum of
  its four source sub-samples modulo \<open>2^16\<close>: the sum wraps, it does not saturate.
  The block read succeeds whenever its last sample
  \<open>(srcY + 3, srcX + 3)\<close> lies inside the buffer.
\<close>

theorem C10_quad_bin_sum_mod_2_16:
  assumes inside: "(srcY + 3) * originalWidth + srcX + 3 < length srcData"
  shows "\<exists>s. fetchBlock (cfaSizeOf True) (evenScale 2) srcData originalWidth srcY srcX = Some s
     \<and> length s = 4
     \<and> unat (s ! 0) = (px srcData originalWidth srcY srcX + px srcData originalWidth srcY (srcX + 1)
          + px srcData originalWidth (srcY + 1) srcX + px srcData originalWidth (srcY + 1) (srcX + 1)) mod 2 ^ 16
     \<and> unat (s ! 1) = (px srcData originalWidth srcY (srcX + 2) + px srcData originalWidth srcY (srcX + 3)
          + px srcData originalWidth (srcY + 1) (srcX + 2) + px srcData originalWidth (srcY + 1) (srcX + 3)) mod 2 ^ 16
     \<and> unat (s ! 2) = (px srcData originalWidth (srcY + 2) srcX + px srcData originalWidth (srcY + 2) (srcX + 1)
          + px srcData originalWidth (srcY + 3) srcX + px srcData originalWidth (srcY + 3) (srcX + 1)) mod 2 ^ 16
     \<and> unat (s ! 3) = (px srcData originalWidth (srcY + 2) (srcX + 2) + px srcData originalWidth (srcY + 2) (srcX + 3)
          + px srcData originalWidth (srcY + 3) (srcX + 2) + px srcData originalWidth (srcY + 3) (srcX + 3)) mod 2 ^ 16
     \<and> scaleSrcLevels (cfaSizeOf True) (evenScale 2) ([b0, b1, b2, b3], w)
          = ([b0 * 4, b1 * 4, b2 * 4, b3 * 4], w * 4)"
proof -
  have c: "cfaSizeOf True = 2" and e: "evenScale 2 = 2"
    by (simp_all add: cfaSizeOf_def evenScale_def)
  have lv: "scaleSrcLevels 2 2 ([b0, b1, b2, b3], w) = ([b0 * 4, b1 * 4, b2 * 4, b3 * 4], w * 4)"
    by (simp add: scaleSrcLevels_def)
  show ?thesis
    unfolding c e lv px_def
    by (simp add: fetchBlock_binned [OF inside] unat_sum4_u16) (simp add: ac_simps)
qed

theorem C10_quad_bin_sum_mod_2_16_witness:
  "fetchBlock (cfaSizeOf True) (evenScale 2)
      [65535, 1, 0, 0,  0, 0, 0, 0,  0, 0, 0, 0,  0, 0, 65535, 65535] 4 0 0 = Some [0, 0, 0, 65534]
   \<and> scaleSrcLevels (cfaSizeOf True) (evenScale 2) ([64, 64, 64, 64], 1023)
        = ([256, 256, 256, 256], 4092)"
  using C10_quad_bin_sum_mod_2_16 [of 0 4 0
      "[65535, 1, 0, 0,  0, 0, 0, 0,  0, 0, 0, 0,  0, 0, 65535, 65535]" 64 64 64 64 1023]
  by (simp add: fetchBlock_def cfaSizeOf_def evenScale_def scaleSrcLevels_def rd_def sum4_u16_def)

section \<open>Properties of the CFA tags\<close>

lemma qcfaOf_expansion:
  assumes "cfaOfArrangement a = Some cfa"
  shows "qcfaOf cfa = quadBayerExpansion cfa \<and> length cfa = 4"
proof -
  from assms have "cfa = [0, 1, 1, 2] \<or> cfa = [2, 1, 1, 0] \<or> cfa = [1, 0, 2, 1] \<or> cfa = [1, 2, 0, 1]"
    by (auto simp: cfaOfArrangement_def split: if_splits)
  moreover have "[0..<16] = [0, 1, 2, 3, 4, 5, 6, 7, 8, 9, 10, 11, 12, 13, 14, 15 :: nat]"
    by (simp add: upt_rec)
  ultimately show ?thesis
    by (auto simp: qcfaOf_def quadBayerExpansion_def)
qed

text \<open>
  Claim C7, as the code has it. For a valid sensor arrangement the DNG carries
  \<open>CFARepeatPatternDim = 4x4\<close> with the 16-entry pattern exactly when the frame is
  interpreted as quad-Bayer, which is \<open>metadata.needRemosaic\<close> or the
  \<open>INTERPRET_AS_QUAD_BAYER\<close> option, and \<open>draftScale = 1\<close> and the quad-Bayer option
  is \<open>CorrectQBCFAMetadata\<close>; otherwise it carries 2x2 with the 4-entry pattern of
  the container. The 16-entry pattern is the 2x2 pattern with every entry repeated
  as a 2x2 cluster.
\<close>

theorem C7_cfa_pattern_dim:
  assumes "cfaOfArrangement a = Some cfa"
  shows "generateDngCfa a needRemosaic s =
           Some (if (needRemosaic \<or> optInterpretAsQuadBayer s) \<and> draftScale s = 1
                     \<and> quadBayerOption s = CorrectQBCFAMetadata
                 then ((4, 4), quadBayerExpansion cfa) else ((2, 2), cfa))
         \<and> length (quadBayerExpansion cfa) = 16 \<and> length cfa = 4"
  using qcfaOf_expansion [OF assms] assms
  by (simp add: generateDngCfa_def cfaTags_def interpretAsQuadBayer_def quadBayerExpansion_def)

theorem C7_cfa_pattern_dim_witness:
  "cfaOfArrangement ''grbg'' = Some [1, 0, 2, 1]
   \<and> generateDngCfa ''grbg'' False (defaultRenderSettings
        \<lparr> optInterpretAsQuadBayer := True, quadBayerOption := CorrectQBCFAMetadata \<rparr>)
       = Some ((4, 4), [1,1,0,0, 1,1,0,0, 2,2,1,1, 2,2,1,1])
   \<and> generateDngCfa ''grbg'' False (defaultRenderSettings
        \<lparr> optInterpretAsQuadBayer := True, draftScale := 2, quadBayerOption := CorrectQBCFAMetadata \<rparr>)
       = Some ((2, 2), [1, 0, 2, 1])"
proof -
  have a: "cfaOfArrangement ''grbg'' = Some [1, 0, 2, 1]"
    by (simp add: cfaOfArrangement_def)
  have e: "quadBayerExpansion [1, 0, 2, 1] = [1,1,0,0, 1,1,0,0, 2,2,1,1, 2,2,1,1]"
    by (simp add: quadBayerExpansion_def upt_rec)
  show ?thesis
    using C7_cfa_pattern_dim [OF a, of False "defaultRenderSettings
        \<lparr> optInterpretAsQuadBayer := True, quadBayerOption := CorrectQBCFAMetadata \<rparr>"]
      C7_cfa_pattern_dim [OF a, of False "defaultRenderSettings
        \<lparr> optInterpretAsQuadBayer := True, draftScale := 2, quadBayerOption := CorrectQBCFAMetadata \<rparr>"]
    by (simp add: a e defaultRenderSettings_def)
qed

text \<open>
  The claim as the specification words it fails: with \<open>needRemosaic\<close> set in the
  frame metadata the pattern is 4x4 although the \<open>INTERPRET_AS_QUAD_BAYER\<close> option
  is not set.
\<close>

theorem C7_cfa_dim_counterexample:
  "generateDngCfa ''rggb'' True (defaultRenderSettings \<lparr> quadBayerOption := CorrectQBCFAMetadata \<rparr>)
     = Some ((4, 4), [0,0,1,1, 0,0,1,1, 1,1,2,2, 1,1,2,2])
   \<and> \<not> optInterpretAsQuadBayer (defaultRenderSettings \<lparr> quadBayerOption := CorrectQBCFAMetadata \<rparr>)
   \<and> draftScale (defaultRenderSettings \<lparr> quadBayerOption := CorrectQBCFAMetadata \<rparr>) = 1"
  by (simp add: generateDngCfa_def cfaOfArrangement_def cfaTags_def interpretAsQuadBayer_def
      qcfaOf_def defaultRenderSettings_def)

section \<open>Properties of the levels and the linearisation table\<close>

lemma bitsNeeded_1023: "bitsNeeded 1023 = 10"
  by (simp add: bitsNeeded_def)

lemma linearizationTable_length:
  "length (linearizationTable interior w) = unat w + 1"
  by (simp add: linearizationTable_def)

lemma linearizationTable_first: "linearizationTable interior w ! 0 = 0"
  by (simp add: linearizationTable_def Let_def nth_map_upt del: upt_Suc)

lemma linearizationTable_last:
  assumes "w \<noteq> 0"
  shows "linearizationTable interior w ! unat w = 65535"
proof -
  from assms have "unat w \<noteq> 0" by (simp add: unat_eq_0)
  then show ?thesis
    by (simp add: linearizationTable_def Let_def nth_map_upt del: upt_Suc)
qed

lemma levelTags_table_present:
  "tagLinearizationTable (levelTags interior logMode applyShadingMap b w) \<noteq> None
     \<longleftrightarrow> logMode \<noteq> Disabled \<and> \<not> (logMode = KeepInput \<and> \<not> applyShadingMap)"
  by (simp add: levelTags_def)

lemma levelTags_with_table:
  assumes "tagLinearizationTable (levelTags interior logMode applyShadingMap b w) = Some t"
  shows "length t = unat w + 1 \<and> t ! 0 = 0 \<and> (w \<noteq> 0 \<longrightarrow> t ! unat w = 65535)
     \<and> tagBlackLevel (levelTags interior logMode applyShadingMap b w) = [0, 0, 0, 0]
     \<and> tagWhiteLevel (levelTags interior logMode applyShadingMap b w) = 65534"
  using assms linearizationTable_length [of interior w] linearizationTable_first [of interior w]
    linearizationTable_last [of w interior]
  by (auto simp: levelTags_def split: if_splits)

text \<open>
  Claim C2 at the default settings (\<open>KeepInput\<close>, vignette correction off): the
  pixel loop of \<open>preprocessData\<close> applies the logarithmic curve, and
  \<open>generateDng\<close> writes no LinearizationTable, the black levels 0 and the white
  level of the renderer. In the shading-map debug view with a reducing log mode it
  is the other way round: the pixels are not log-encoded, and the table is written.
\<close>

theorem C2_log_pixels_and_table_disagree:
  "generateDngLevels interior False defaultRenderSettings ([64, 64, 64, 64], 1023)
     = Some (LogTransfer,
             \<lparr> tagLinearizationTable = None, tagBlackLevel = [0, 0, 0, 0], tagWhiteLevel = 1023 \<rparr>)
   \<and> map_option (\<lambda>r. (fst r, tagLinearizationTable (snd r) = None))
        (generateDngLevels interior False
           (defaultRenderSettings \<lparr> optApplyVignette := True, optDebugShadingMap := True,
              logTransform := ReduceBy2Bit \<rparr>) ([64, 64, 64, 64], 1023))
     = Some (GainmapView, False)"
proof -
  have t: "toUShort 1023 = Some 1023" "toUShort (roundf 0) = Some 0"
    by (simp_all add: toUShort_def truncf_def roundf_def)
  show ?thesis
    by (simp add: generateDngLevels_def preprocessLevels_def dstLevels_def scaleSrcLevels_def
        interpretAsQuadBayer_def cfaSizeOf_def evenScale_def defaultRenderSettings_def
        pixelTransfer_def levelTags_def t)
qed

lemma toUShort_in_range:
  assumes "0 \<le> x" "x \<le> 65535"
  shows "\<exists>s. toUShort x = Some s \<and> real (unat s) \<le> x \<and> x < real (unat s) + 1"
proof -
  from assms have f: "0 \<le> \<lfloor>x\<rfloor>" "\<lfloor>x\<rfloor> \<le> 65535" by (simp_all add: floor_le_iff)
  then have u: "unat (word_of_int \<lfloor>x\<rfloor> :: u16) = nat \<lfloor>x\<rfloor>"
    by (simp add: unat_eq_nat_uint uint_word_of_int take_bit_eq_mod)
  have "real (nat \<lfloor>x\<rfloor>) = of_int \<lfloor>x\<rfloor>" using f by simp
  then have "real (nat \<lfloor>x\<rfloor>) \<le> x \<and> x < real (nat \<lfloor>x\<rfloor>) + 1" by linarith
  then have r: "real (unat (word_of_int \<lfloor>x\<rfloor> :: u16)) \<le> x
      \<and> x < real (unat (word_of_int \<lfloor>x\<rfloor> :: u16)) + 1"
    by (simp only: u)
  have "toUShort x = Some (word_of_int \<lfloor>x\<rfloor>)"
    using assms f by (simp add: toUShort_def truncf_def)
  with r show ?thesis by blast
qed

lemma storeSample_in_range:
  assumes "0 \<le> w" "w \<le> 65535"
  shows "\<exists>s. storeSample w x = Some s \<and> real (unat s) \<le> w"
proof -
  define c where "c = (if roundf x < 0 then 0 else if w < roundf x then w else roundf x)"
  have c: "0 \<le> c" "c \<le> w" using assms by (auto simp: c_def)
  with assms have "c \<le> 65535" by simp
  from toUShort_in_range [OF c(1) this] obtain s where "toUShort c = Some s" "real (unat s) \<le> c"
    by blast
  with c assms show ?thesis by (auto simp: storeSample_def clampf_def c_def)
qed

text \<open>
  Claim C3 at a quad-Bayer frame binned 2x2 (draft scale 2) with source white level
  65535, no vignette correction and no log transform: the white level computed by
  \<open>preprocessData\<close> is \<open>4 * 65535 = 262140\<close>, above \<open>2^16 - 1\<close>, and its
  conversion to the \<open>unsigned short\<close> result is out of range.
\<close>

theorem C3_white_level_exceeds_16_bits:
  "dstLevels False False False Disabled
       (scaleSrcLevels (cfaSizeOf True) (evenScale 2) ([0, 0, 0, 0], 65535))
     = Some ([0, 0, 0, 0], 262140)
   \<and> \<not> (262140 :: real) \<le> 2 ^ 16 - 1
   \<and> toUShort 262140 = None
   \<and> preprocessLevels True 2 False False False Disabled ([0, 0, 0, 0], 65535) = None"
  by (simp add: dstLevels_def scaleSrcLevels_def cfaSizeOf_def evenScale_def preprocessLevels_def
      toUShort_def truncf_def)

section \<open>Properties of the rounding to doubles\<close>

declare expUp.simps [simp del] expDown.simps [simp del]

lemma two_powi_step: "(2 :: real) powi (e + 1) = 2 * 2 powi e"
  by (simp add: power_int_add_1')

lemma expUp_bounds:
  "1 \<le> x \<Longrightarrow> 2 powi (expUp x) \<le> x \<and> x < 2 powi (expUp x + 1)"
proof (induction x rule: expUp.induct)
  case (1 x)
  show ?case
  proof (cases "2 \<le> x")
    case True
    then have "1 \<le> x / 2" by simp
    with 1 True have "2 powi (expUp (x / 2)) \<le> x / 2 \<and> x / 2 < 2 powi (expUp (x / 2) + 1)"
      by simp
    then have "2 * 2 powi (expUp (x / 2)) \<le> x \<and> x < 2 * (2 * 2 powi (expUp (x / 2)))"
      unfolding two_powi_step by linarith
    moreover have "expUp x = expUp (x / 2) + 1" using True by (subst expUp.simps) simp
    ultimately show ?thesis by (simp only: two_powi_step)
  next
    case False
    then have "expUp x = 0" by (subst expUp.simps) simp
    with False 1 show ?thesis by simp
  qed
qed

lemma expDown_bounds:
  "0 < x \<Longrightarrow> x < 1 \<Longrightarrow> 2 powi (expDown x) \<le> x \<and> x < 2 powi (expDown x + 1)"
proof (induction x rule: expDown.induct)
  case (1 x)
  have e: "expDown x = expDown (2 * x) - 1" using 1 by (subst expDown.simps) simp
  show ?case
  proof (cases "2 * x < 1")
    case True
    with 1 have "2 powi (expDown (2 * x)) \<le> 2 * x \<and> 2 * x < 2 powi (expDown (2 * x) + 1)"
      by simp
    moreover have "2 powi (expDown (2 * x)) = 2 * (2 :: real) powi (expDown (2 * x) - 1)"
      using two_powi_step [of "expDown (2 * x) - 1"] by simp
    moreover have "expDown (2 * x) - 1 + 1 = expDown (2 * x)" by simp
    ultimately show ?thesis unfolding e two_powi_step by (simp only:) linarith
  next
    case False
    then have "expDown (2 * x) = 0" by (subst expDown.simps) simp
    with False 1 show ?thesis unfolding e by (simp add: power_int_minus)
  qed
qed

lemma binExp_bounds:
  assumes "0 < x"
  shows "2 powi (binExp x) \<le> x" "x < 2 powi (binExp x + 1)"
  using assms expUp_bounds [of x] expDown_bounds [of x] by (auto simp: binExp_def)

lemma binExp_mono:
  assumes "0 < x" "x \<le> y"
  shows "binExp x \<le> binExp y"
proof (rule ccontr)
  assume "\<not> binExp x \<le> binExp y"
  then have "binExp y + 1 \<le> binExp x" by simp
  then have "(2 :: real) powi (binExp y + 1) \<le> 2 powi (binExp x)"
    by (rule power_int_increasing) simp
  also have "\<dots> \<le> x" by (rule binExp_bounds(1) [OF assms(1)])
  also have "\<dots> \<le> y" by (rule assms(2))
  also have "\<dots> < 2 powi (binExp y + 1)" using assms by (intro binExp_bounds(2)) simp
  finally show False by simp
qed

lemma roundEven_int: "roundEven (of_int k) = k"
  by (simp add: roundEven_def)

lemma roundEven_floor: "\<lfloor>y\<rfloor> \<le> roundEven y" "roundEven y \<le> \<lfloor>y\<rfloor> + 1"
  by (simp_all add: roundEven_def)

lemma roundEven_mono:
  assumes "x \<le> y"
  shows "roundEven x \<le> roundEven y"
proof (cases "\<lfloor>x\<rfloor> = \<lfloor>y\<rfloor>")
  case True
  with assms show ?thesis by (auto simp: roundEven_def)
next
  case False
  with assms have "\<lfloor>x\<rfloor> + 1 \<le> \<lfloor>y\<rfloor>" using floor_mono [OF assms] by simp
  with roundEven_floor(2) [of x] roundEven_floor(1) [of y] show ?thesis by simp
qed

lemma flPos_range:
  assumes "0 < x"
  shows "2 powi (binExp x) \<le> flPos x" "flPos x \<le> 2 powi (binExp x + 1)"
proof -
  let ?s = "(2 :: real) powi (binExp x - 52)"
  have s: "0 < ?s" by (simp add: zero_less_power_int)
  have lo: "2 powi (binExp x) = 2 ^ 52 * ?s"
    using power_int_add [of "2 :: real" 52 "binExp x - 52"] by simp
  have hi: "2 powi (binExp x + 1) = 2 ^ 53 * ?s"
    using power_int_add [of "2 :: real" 53 "binExp x - 52"] by (simp add: add.commute)
  have "2 ^ 52 \<le> x / ?s" using binExp_bounds(1) [OF assms] s by (simp add: lo pos_le_divide_eq)
  then have "roundEven (of_int (2 ^ 52)) \<le> roundEven (x / ?s)" by (intro roundEven_mono) simp
  then have "2 ^ 52 \<le> roundEven (x / ?s)" by (simp only: roundEven_int)
  then have "(of_int (2 ^ 52) :: real) \<le> of_int (roundEven (x / ?s))" by (simp only: of_int_le_iff)
  then have "(2 :: real) ^ 52 \<le> of_int (roundEven (x / ?s))" by simp
  then show "2 powi (binExp x) \<le> flPos x"
    using s by (simp add: flPos_def lo)
  have "x / ?s \<le> 2 ^ 53" using binExp_bounds(2) [OF assms] s by (simp add: hi pos_divide_le_eq)
  then have "roundEven (x / ?s) \<le> roundEven (of_int (2 ^ 53))" by (intro roundEven_mono) simp
  then have "roundEven (x / ?s) \<le> 2 ^ 53" by (simp only: roundEven_int)
  then have "of_int (roundEven (x / ?s)) \<le> (of_int (2 ^ 53) :: real)" by (simp only: of_int_le_iff)
  then have "of_int (roundEven (x / ?s)) \<le> (2 :: real) ^ 53" by simp
  then show "flPos x \<le> 2 powi (binExp x + 1)"
    using s by (simp add: flPos_def hi)
qed

lemma flPos_mono:
  assumes "0 < x" "x \<le> y"
  shows "flPos x \<le> flPos y"
proof (cases "binExp x = binExp y")
  case True
  let ?s = "(2 :: real) powi (binExp y - 52)"
  have s: "0 < ?s" by (simp add: zero_less_power_int)
  then have "x / ?s \<le> y / ?s" using assms(2) by (simp add: divide_right_mono)
  then have "roundEven (x / ?s) \<le> roundEven (y / ?s)" by (rule roundEven_mono)
  then have "(of_int (roundEven (x / ?s)) :: real) \<le> of_int (roundEven (y / ?s))" by simp
  with s show ?thesis by (simp add: flPos_def True)
next
  case False
  with binExp_mono [OF assms] have "binExp x + 1 \<le> binExp y" by simp
  then have "(2 :: real) powi (binExp x + 1) \<le> 2 powi (binExp y)"
    by (rule power_int_increasing) simp
  moreover have "flPos x \<le> 2 powi (binExp x + 1)" by (rule flPos_range(2) [OF assms(1)])
  moreover have "2 powi (binExp y) \<le> flPos y" using assms by (intro flPos_range(1)) simp
  ultimately show ?thesis by simp
qed

lemma flPos_pos:
  assumes "0 < x"
  shows "0 < flPos x"
proof -
  have "(0 :: real) < 2 powi (binExp x)" by (simp add: zero_less_power_int)
  also have "\<dots> \<le> flPos x" by (rule flPos_range(1) [OF assms])
  finally show ?thesis .
qed

lemma fl_mono:
  assumes "x \<le> y"
  shows "fl x \<le> fl y"
proof -
  consider "0 < x" | "x = 0" | "x < 0" "y < 0" | "x < 0" "0 \<le> y" by linarith
  then show ?thesis
  proof cases
    case 1
    with assms flPos_mono [OF 1 assms] show ?thesis by (simp add: fl_def)
  next
    case 2
    with assms flPos_pos [of y] show ?thesis by (cases "y = 0") (simp_all add: fl_def)
  next
    case 3
    with assms flPos_mono [of "- y" "- x"] show ?thesis by (simp add: fl_def)
  next
    case 4
    with flPos_pos [of "- x"] flPos_pos [of y] show ?thesis
      by (cases "y = 0") (simp_all add: fl_def)
  qed
qed

lemmas fl_eval = fl_def flPos_def binExp_def expUp.simps expDown.simps roundEven_def

lemma fl_points:
  "fl 2 = 2" "fl (- 2) = - 2" "fl (1 / 16) = 1 / 16"
  "fl (5 / 100) = 3602879701896397 / 72057594037927936"
  "fl (1 / 20) = 3602879701896397 / 72057594037927936"
  "fl (2997 / 100) = 1054475631502295 / 35184372088832"
  "fl (5994 / 100) = 1054475631502295 / 17592186044416"
  by (simp_all add: fl_eval)

section \<open>Properties of the frame-rate inference\<close>

lemma snapToCommon_find: "snapToCommon rates rawFps = find (nearRate rawFps) rates"
  by (induction rates) simp_all

lemma not_near_far:
  assumes "2 \<le> \<bar>x - r\<bar>" "0 < r" "r \<le> 32"
  shows "\<not> nearRate x r"
proof -
  have a: "2 \<le> \<bar>fl (x - r)\<bar>"
  proof (cases "2 \<le> x - r")
    case True
    from fl_mono [OF True] show ?thesis by (simp add: fl_points)
  next
    case False
    with assms(1) have "x - r \<le> - 2" by linarith
    from fl_mono [OF this] show ?thesis by (simp add: fl_points)
  qed
  have "1 / 16 * r \<le> \<bar>fl (x - r)\<bar>" using a assms(3) by linarith
  then have "1 / 16 \<le> \<bar>fl (x - r)\<bar> / r" using assms(2) by (simp add: pos_le_divide_eq)
  from fl_mono [OF this] have "1 / 16 \<le> fl (\<bar>fl (x - r)\<bar> / r)" by (simp add: fl_points)
  then show ?thesis by (simp add: nearRate_def fl_points)
qed

lemma near_2997_first:
  assumes "nearRate x (fl (2997 / 100))"
  shows "\<not> nearRate x 18" "\<not> nearRate x 24" "\<not> nearRate x 25"
proof -
  have "\<not> 2 \<le> \<bar>x - fl (2997 / 100)\<bar>"
    using assms not_near_far [of x "fl (2997 / 100)"] by (auto simp: fl_points)
  then have x: "27 < x" by (simp add: fl_points)
  then show "\<not> nearRate x 18" "\<not> nearRate x 24" "\<not> nearRate x 25"
    by (intro not_near_far; simp)+
qed

lemma fl_minus: "fl (- x) = - fl x"
  by (simp add: fl_def)

lemma fl_abs_le:
  assumes "\<bar>x\<bar> \<le> a"
  shows "\<bar>fl x\<bar> \<le> fl a"
proof -
  from assms have "x \<le> a" "- a \<le> x" by linarith+
  then have "fl x \<le> fl a" "fl (- a) \<le> fl x" by (simp_all only: fl_mono)
  then show ?thesis by (simp add: fl_minus)
qed

lemma fl_abs_ge:
  assumes "a \<le> \<bar>x\<bar>"
  shows "fl a \<le> \<bar>fl x\<bar>"
proof (cases "0 \<le> x")
  case True
  with assms have "a \<le> x" by simp
  from fl_mono [OF this] show ?thesis by simp
next
  case False
  with assms have "x \<le> - a" by simp
  from fl_mono [OF this] show ?thesis by (simp add: fl_minus)
qed

lemma near_if_within:
  assumes "0 < r" "\<bar>x - r\<bar> \<le> a" "fl (fl a / r) < fl (5 / 100)"
  shows "nearRate x r"
proof -
  have "\<bar>fl (x - r)\<bar> / r \<le> fl a / r"
    using fl_abs_le [OF assms(2)] assms(1) by (simp add: divide_right_mono)
  from fl_mono [OF this] assms(3) show ?thesis by (simp add: nearRate_def)
qed

lemma not_near_if_beyond:
  assumes "0 < r" "a \<le> \<bar>x - r\<bar>" "fl (5 / 100) \<le> fl (fl a / r)"
  shows "\<not> nearRate x r"
proof -
  have "fl a / r \<le> \<bar>fl (x - r)\<bar> / r"
    using fl_abs_ge [OF assms(2)] assms(1) by (simp add: divide_right_mono)
  from fl_mono [OF this] assms(3) show ?thesis by (simp add: nearRate_def)
qed

lemma test_band:
  assumes "r \<in> set commonRates"
  shows "fl (fl (4999999 / 100000000 * r) / r) < fl (5 / 100)
       \<and> fl (5 / 100) \<le> fl (fl (5000001 / 100000000 * r) / r) \<and> 0 < r"
proof -
  from assms consider "r = 18" | "r = 24" | "r = 25" | "r = fl (2997 / 100)" | "r = 30" | "r = 48" | "r = 50" | "r = fl (5994 / 100)" | "r = 60" | "r = 120"
    by (auto simp: commonRates_def)
  then show ?thesis
  proof cases
    case 1
    show ?thesis unfolding 1 fl_points by (simp add: fl_eval)
  next
    case 2
    show ?thesis unfolding 2 fl_points by (simp add: fl_eval)
  next
    case 3
    show ?thesis unfolding 3 fl_points by (simp add: fl_eval)
  next
    case 4
    show ?thesis unfolding 4 fl_points by (simp add: fl_eval)
  next
    case 5
    show ?thesis unfolding 5 fl_points by (simp add: fl_eval)
  next
    case 6
    show ?thesis unfolding 6 fl_points by (simp add: fl_eval)
  next
    case 7
    show ?thesis unfolding 7 fl_points by (simp add: fl_eval)
  next
    case 8
    show ?thesis unfolding 8 fl_points by (simp add: fl_eval)
  next
    case 9
    show ?thesis unfolding 9 fl_points by (simp add: fl_eval)
  next
    case 10
    show ?thesis unfolding 10 fl_points by (simp add: fl_eval)
  qed
qed

lemma test_agrees_off_edge:
  assumes "r \<in> set commonRates"
  shows "\<bar>x - r\<bar> \<le> 4999999 / 100000000 * r \<Longrightarrow> nearRate x r"
    and "5000001 / 100000000 * r \<le> \<bar>x - r\<bar> \<Longrightarrow> \<not> nearRate x r"
  using test_band [OF assms] near_if_within [of r x "4999999 / 100000000 * r"]
    not_near_if_beyond [of r "5000001 / 100000000 * r" x]
  by blast+

lemma calculateFps_snap:
  assumes "2 \<le> length ts" "timestampDeltas ts \<noteq> []"
    and "find (nearRate (rawFpsOf (medianDelta ts))) commonRates = Some r"
  shows "calculateFpsFromTimestamps ts = r"
  using assms by (simp add: calculateFpsFromTimestamps_def snapToCommon_find)

text \<open>
  Claim C8, as the code has it, with the 5 per cent test as the decoder evaluates it
  in double arithmetic (\<open>nearRate\<close>). For a timestamp vector with at least one
  positive delta: when the raw frame rate passes the test for 29.97, the inferred
  rate is 29.97 and not 30; and when it passes the test for some member of the list
  of common rates, the inferred rate is a member of the list for which it passes
  the test. The test agrees with the exact relative distance off the edge of the
  band: a value within 4.999999 per cent of a member passes the test for it, and a
  value at least 5.000001 per cent away fails it.
\<close>

theorem C8_fps_snaps_within_5_percent:
  assumes "2 \<le> length ts" "timestampDeltas ts \<noteq> []"
  shows "(nearRate (rawFpsOf (medianDelta ts)) (fl (2997 / 100))
            \<longrightarrow> calculateFpsFromTimestamps ts = fl (2997 / 100)
                \<and> calculateFpsFromTimestamps ts \<noteq> 30)
       \<and> ((\<exists>r \<in> set commonRates. nearRate (rawFpsOf (medianDelta ts)) r)
            \<longrightarrow> calculateFpsFromTimestamps ts \<in> set commonRates
                \<and> nearRate (rawFpsOf (medianDelta ts)) (calculateFpsFromTimestamps ts))
       \<and> (\<forall>r \<in> set commonRates.
             (\<bar>x - r\<bar> \<le> 4999999 / 100000000 * r \<longrightarrow> nearRate x r)
           \<and> (5000001 / 100000000 * r \<le> \<bar>x - r\<bar> \<longrightarrow> \<not> nearRate x r))"
proof (intro conjI impI ballI)
  assume n: "nearRate (rawFpsOf (medianDelta ts)) (fl (2997 / 100))"
  have "find (nearRate (rawFpsOf (medianDelta ts))) commonRates = Some (fl (2997 / 100))"
    using n near_2997_first [OF n] by (simp add: commonRates_def)
  then show r: "calculateFpsFromTimestamps ts = fl (2997 / 100)"
    by (rule calculateFps_snap [OF assms])
  show "calculateFpsFromTimestamps ts \<noteq> 30"
    unfolding r by (simp add: fl_points)
next
  assume "\<exists>r \<in> set commonRates. nearRate (rawFpsOf (medianDelta ts)) r"
  then obtain r where f: "find (nearRate (rawFpsOf (medianDelta ts))) commonRates = Some r"
    by (cases "find (nearRate (rawFpsOf (medianDelta ts))) commonRates") (auto simp: find_None_iff)
  then have r: "calculateFpsFromTimestamps ts = r"
    by (rule calculateFps_snap [OF assms])
  from f have "r \<in> set commonRates \<and> nearRate (rawFpsOf (medianDelta ts)) r"
    by (auto simp: find_Some_iff)
  then show "calculateFpsFromTimestamps ts \<in> set commonRates"
    and "nearRate (rawFpsOf (medianDelta ts)) (calculateFpsFromTimestamps ts)"
    by (simp_all add: r)
next
  fix r
  assume r: "r \<in> set commonRates"
  show "nearRate x r" if "\<bar>x - r\<bar> \<le> 4999999 / 100000000 * r"
    using that by (rule test_agrees_off_edge(1) [OF r])
  show "\<not> nearRate x r" if "5000001 / 100000000 * r \<le> \<bar>x - r\<bar>"
    using that by (rule test_agrees_off_edge(2) [OF r])
qed

lemma deltas_example: "timestampDeltas [0, 33366, 66733] = [33366, 33367]"
  by (simp add: timestampDeltas_def upt_rec fl_eval)

lemma raw_example: "rawFpsOf (medianDelta [0, 33366, 66733]) = 8435729214812719 / 281474976710656"
  by (simp add: medianDelta_def deltas_example rawFpsOf_def fl_eval)

theorem C8_fps_snaps_within_5_percent_witness:
  "2 \<le> length [0, 33366, 66733 :: real] \<and> timestampDeltas [0, 33366, 66733] \<noteq> []
   \<and> nearRate (rawFpsOf (medianDelta [0, 33366, 66733])) (fl (2997 / 100))
   \<and> calculateFpsFromTimestamps [0, 33366, 66733] = fl (2997 / 100)
   \<and> calculateFpsFromTimestamps [0, 33366, 66733] \<in> set commonRates
   \<and> nearRate 30 (fl (2997 / 100)) \<and> \<not> nearRate 32 (fl (2997 / 100))"
proof -
  have l: "2 \<le> length [0, 33366, 66733 :: real]" by simp
  have d: "timestampDeltas [0, 33366, 66733] \<noteq> []" by (simp add: deltas_example)
  have n: "nearRate (rawFpsOf (medianDelta [0, 33366, 66733])) (fl (2997 / 100))"
    unfolding raw_example nearRate_def fl_points by (simp add: fl_eval)
  have c: "fl (2997 / 100) \<in> set commonRates" by (simp add: commonRates_def)
  note t = C8_fps_snaps_within_5_percent [OF l d]
  from t n have "calculateFpsFromTimestamps [0, 33366, 66733] = fl (2997 / 100)
      \<and> calculateFpsFromTimestamps [0, 33366, 66733] \<noteq> 30"
    by (rule conjunct1 [THEN mp])
  then have r1: "calculateFpsFromTimestamps [0, 33366, 66733] = fl (2997 / 100)"
    by (rule conjunct1)
  from c n have "\<exists>r \<in> set commonRates. nearRate (rawFpsOf (medianDelta [0, 33366, 66733])) r"
    by (rule bexI [rotated])
  with t have "calculateFpsFromTimestamps [0, 33366, 66733] \<in> set commonRates
      \<and> nearRate (rawFpsOf (medianDelta [0, 33366, 66733])) (calculateFpsFromTimestamps [0, 33366, 66733])"
    by (rule conjunct2 [THEN conjunct1, THEN mp])
  then have r2: "calculateFpsFromTimestamps [0, 33366, 66733] \<in> set commonRates"
    by (rule conjunct1)
  from C8_fps_snaps_within_5_percent [OF l d, of 30] c
  have "(\<bar>30 - fl (2997 / 100)\<bar> \<le> 4999999 / 100000000 * fl (2997 / 100)
          \<longrightarrow> nearRate 30 (fl (2997 / 100)))"
    by blast
  then have e1: "nearRate 30 (fl (2997 / 100))" by (simp add: fl_points)
  from C8_fps_snaps_within_5_percent [OF l d, of 32] c
  have "(5000001 / 100000000 * fl (2997 / 100) \<le> \<bar>32 - fl (2997 / 100)\<bar>
          \<longrightarrow> \<not> nearRate 32 (fl (2997 / 100)))"
    by blast
  then have e2: "\<not> nearRate 32 (fl (2997 / 100))" by (simp add: fl_points)
  from l d n r1 r2 e1 e2 show ?thesis by (intro conjI)
qed

text \<open>
  The claim as the specification words it, with the 5 per cent taken exactly, fails
  at the upper edge of the band of 29.97. With the timestamps 0 and
  31.777809555587336 (ms) the raw rate is the double 31.4685; it lies within 5 per
  cent of 29.97, and so does the exact quotient \<open>1000 / 31.777809555587336\<close>, but
  the rounded test value is not below the double \<open>0.05\<close>, and the inferred rate is
  30.
\<close>

theorem C8_band_edge_gives_30_counterexample:
  "calculateFpsFromTimestamps [0, 8944658204574607 / 281474976710656] = 30
   \<and> rawFpsOf (medianDelta [0, 8944658204574607 / 281474976710656])
       = 4428797652309639 / 140737488355328
   \<and> \<bar>4428797652309639 / 140737488355328 - 2997 / 100\<bar> / (2997 / 100) < (5 / 100 :: real)
   \<and> \<bar>1000 / (8944658204574607 / 281474976710656) - 2997 / 100\<bar> / (2997 / 100) < (5 / 100 :: real)
   \<and> \<not> nearRate (4428797652309639 / 140737488355328) (fl (2997 / 100))"
proof -
  have d: "timestampDeltas [0, 8944658204574607 / 281474976710656]
      = [8944658204574607 / 281474976710656]"
    by (simp add: timestampDeltas_def upt_rec fl_eval)
  have m: "rawFpsOf (medianDelta [0, 8944658204574607 / 281474976710656])
      = 4428797652309639 / 140737488355328"
    by (simp add: medianDelta_def d rawFpsOf_def fl_eval)
  have n: "\<not> nearRate (4428797652309639 / 140737488355328) 18"
    "\<not> nearRate (4428797652309639 / 140737488355328) 24"
    "\<not> nearRate (4428797652309639 / 140737488355328) 25"
    by (intro not_near_far; simp)+
  have e: "\<not> nearRate (4428797652309639 / 140737488355328) (fl (2997 / 100))"
    unfolding nearRate_def fl_points by (simp add: fl_eval)
  have t: "nearRate (4428797652309639 / 140737488355328) 30"
    unfolding nearRate_def fl_points by (simp add: fl_eval)
  have "calculateFpsFromTimestamps [0, 8944658204574607 / 281474976710656] = 30"
    by (simp add: calculateFpsFromTimestamps_def d m commonRates_def n e t)
  with m e show ?thesis by simp
qed

text \<open>
  The loop returns at the first rate of the list that passes the test, and the
  bands of neighbouring rates overlap: timestamps 40 ms apart give the raw rate 25,
  which is a member of the list, and the inferred rate is 24.
\<close>

lemma fps_25_snaps_to_24:
  "rawFpsOf (medianDelta [0, 40, 80]) = 25 \<and> 25 \<in> set commonRates \<and> nearRate 25 25
   \<and> calculateFpsFromTimestamps [0, 40, 80] = 24"
proof -
  have d: "timestampDeltas [0, 40, 80] = [40, 40]"
    by (simp add: timestampDeltas_def upt_rec fl_eval)
  have m: "rawFpsOf (medianDelta [0, 40, 80]) = 25"
    by (simp add: medianDelta_def d rawFpsOf_def fl_eval)
  have n: "nearRate 25 25" "nearRate 25 24" "\<not> nearRate 25 18"
    by (simp_all add: nearRate_def fl_eval)
  show ?thesis
    by (simp add: m calculateFpsFromTimestamps_def d commonRates_def n)
qed

section \<open>Properties of the frame loop\<close>

lemma frameLoop_counts:
  assumes "frameLoop n os s f = Inr r"
  shows "fst r = s + count_list os FrameOk
       \<and> snd r = f + count_list os FrameNoData + count_list os FrameThrows"
  using assms
proof (induction n os s f rule: frameLoop.induct)
  case (4 n rest s f)
  then show ?case by (auto split: if_splits)
qed auto

lemma frameLoop_aborts:
  assumes "FrameNoData \<notin> set os" "5 * int f \<le> 4 * n"
  shows "isl (frameLoop n os s f) \<longleftrightarrow> 5 * int (f + count_list os FrameThrows) > 4 * n"
  using assms
proof (induction n os s f rule: frameLoop.induct)
  case (1 n s f)
  then show ?case by simp
next
  case (2 n rest s f)
  then show ?case by simp
next
  case (3 n rest s f)
  then show ?case by simp
next
  case (4 n rest s f)
  show ?case
  proof (cases "5 * int (f + 1) > 4 * n")
    case True
    then have "5 * int (f + 1 + count_list rest FrameThrows) > 4 * n" by simp
    with True show ?thesis by simp
  next
    case False
    with 4 show ?thesis by simp
  qed
qed

lemma count_split:
  assumes "FrameNoData \<notin> set os"
  shows "count_list os FrameOk + count_list os FrameThrows = length os"
  using assms
proof (induction os)
  case (Cons a os)
  then show ?case by (cases a) auto
qed simp

text \<open>
  Claim C9, as the code has it, for frames whose failures are raised as exceptions
  (no frame of the range decodes to empty data). A failing frame is counted as
  failed and the loop goes on with the next frame; the job aborts exactly when the
  failed frames exceed 80 per cent of the frames to process or no frame succeeded;
  a job that returns reports every frame of the range as successful or failed.
\<close>

theorem C9_abort_iff_over_80_percent_or_no_success:
  assumes "FrameNoData \<notin> set (rangeOutcomes decoderFrames frameRange outcomeOf)"
  shows "(isl (processFrames decoderFrames frameRange outcomeOf)
           \<longleftrightarrow> 5 * int (count_list (rangeOutcomes decoderFrames frameRange outcomeOf) FrameThrows)
                   > 4 * framesToProcessOf decoderFrames frameRange
               \<or> count_list (rangeOutcomes decoderFrames frameRange outcomeOf) FrameOk = 0)
       \<and> (\<forall>r. processFrames decoderFrames frameRange outcomeOf = Inr r \<longrightarrow>
             successfulFrames r = count_list (rangeOutcomes decoderFrames frameRange outcomeOf) FrameOk
           \<and> failedFrames r = count_list (rangeOutcomes decoderFrames frameRange outcomeOf) FrameThrows
           \<and> totalFrames r = framesToProcessOf decoderFrames frameRange
           \<and> int (successfulFrames r + failedFrames r) = totalFrames r)"
proof -
  define os where "os = rangeOutcomes decoderFrames frameRange outcomeOf"
  define n where "n = framesToProcessOf decoderFrames frameRange"
  have nd: "FrameNoData \<notin> set os" using assms by (simp add: os_def)
  have c0: "count_list os FrameNoData = 0" using nd by (simp add: count_list_0_iff)
  have len: "n < 0 \<longrightarrow> os = []" "0 \<le> n \<longrightarrow> int (length os) = n"
    by (auto simp: os_def n_def rangeOutcomes_def framesToProcessOf_def)
  have pf: "processFrames decoderFrames frameRange outcomeOf =
      (case frameLoop n os 0 0 of Inl e \<Rightarrow> Inl e
       | Inr r \<Rightarrow> if fst r = 0 then Inl NoFrameProcessed
                  else Inr \<lparr> successfulFrames = fst r, failedFrames = snd r, totalFrames = n \<rparr>)"
    by (simp only: processFrames_def os_def n_def)
  show ?thesis
  proof (cases "n < 0")
    case True
    with len have "os = []" by simp
    with True show ?thesis
      unfolding os_def [symmetric] n_def [symmetric] pf by simp
  next
    case False
    then have n0: "5 * int 0 \<le> 4 * n" by simp
    have ab: "isl (frameLoop n os 0 0) \<longleftrightarrow> 5 * int (count_list os FrameThrows) > 4 * n"
      using frameLoop_aborts [OF nd n0, of 0] by simp
    have l: "int (count_list os FrameOk + count_list os FrameThrows) = n"
      using count_split [OF nd] len False by simp
    show ?thesis
    proof (cases "frameLoop n os 0 0")
      case (Inl e)
      with ab show ?thesis
        unfolding os_def [symmetric] n_def [symmetric] pf by simp
    next
      case (Inr r)
      from frameLoop_counts [OF Inr] c0
      have r: "fst r = count_list os FrameOk" "snd r = count_list os FrameThrows" by simp_all
      from Inr ab have nab: "\<not> 5 * int (count_list os FrameThrows) > 4 * n" by auto
      show ?thesis
        unfolding os_def [symmetric] n_def [symmetric] pf
        using Inr r nab l by auto
    qed
  qed
qed

theorem C9_abort_iff_over_80_percent_or_no_success_witness:
  "FrameNoData \<notin> set (rangeOutcomes 8 None (\<lambda>i. if i = 0 then FrameOk else FrameThrows))
   \<and> isl (processFrames 8 None (\<lambda>i. if i = 0 then FrameOk else FrameThrows))
   \<and> processFrames 8 None (\<lambda>i. if i = 0 then FrameOk else FrameThrows) = Inl (TooManyFailures 7 8)
   \<and> processFrames 5 None (\<lambda>i. if i = 0 then FrameOk else FrameThrows)
       = Inr \<lparr> successfulFrames = 1, failedFrames = 4, totalFrames = 5 \<rparr>"
proof -
  let ?f = "\<lambda>i :: int. if i = 0 then FrameOk else FrameThrows"
  have a: "rangeOutcomes 8 None ?f
      = [FrameOk, FrameThrows, FrameThrows, FrameThrows, FrameThrows, FrameThrows, FrameThrows, FrameThrows]"
    by (simp add: rangeOutcomes_def startFrameOf_def endFrameOf_def upto_rec1)
  have b: "rangeOutcomes 5 None ?f = [FrameOk, FrameThrows, FrameThrows, FrameThrows, FrameThrows]"
    by (simp add: rangeOutcomes_def startFrameOf_def endFrameOf_def upto_rec1)
  have n: "framesToProcessOf 8 None = 8" "framesToProcessOf 5 None = 5"
    by (simp_all add: framesToProcessOf_def startFrameOf_def endFrameOf_def)
  have nd: "FrameNoData \<notin> set (rangeOutcomes 8 None ?f)" by (simp add: a)
  have over: "5 * int (count_list (rangeOutcomes 8 None ?f) FrameThrows) > 4 * framesToProcessOf 8 None"
    by (simp add: a n)
  from C9_abort_iff_over_80_percent_or_no_success [OF nd]
  have "isl (processFrames 8 None ?f)
      \<longleftrightarrow> 5 * int (count_list (rangeOutcomes 8 None ?f) FrameThrows) > 4 * framesToProcessOf 8 None
        \<or> count_list (rangeOutcomes 8 None ?f) FrameOk = 0"
    by (rule conjunct1)
  with over have i: "isl (processFrames 8 None ?f)" by blast
  have v8: "processFrames 8 None ?f = Inl (TooManyFailures 7 8)"
    by (simp add: processFrames_def a n)
  have v5: "processFrames 5 None ?f = Inr \<lparr> successfulFrames = 1, failedFrames = 4, totalFrames = 5 \<rparr>"
    by (simp add: processFrames_def b n)
  from nd i v8 v5 show ?thesis by (intro conjI)
qed

text \<open>
  The claim as the specification words it fails on a frame range that starts
  behind the last frame: nothing is processed, no frame fails, and the job aborts
  because no frame succeeded.
\<close>

theorem C9_abort_without_failure_counterexample:
  "processFrames 3 (Some (3, 0)) (\<lambda>i. FrameOk) = Inl NoFrameProcessed
   \<and> rangeOutcomes 3 (Some (3, 0)) (\<lambda>i. FrameOk) = []
   \<and> framesToProcessOf 3 (Some (3, 0)) = 0"
  by (simp add: processFrames_def rangeOutcomes_def framesToProcessOf_def startFrameOf_def
      endFrameOf_def)

text \<open>
  Frames that decode to empty data are counted as failed on a path that does not
  test the threshold: with one good frame and five empty ones the job returns
  normally with five of six frames failed.
\<close>

lemma empty_frames_skip_threshold:
  "processFrames 6 None (\<lambda>i. if i = 0 then FrameOk else FrameNoData)
     = Inr \<lparr> successfulFrames = 1, failedFrames = 5, totalFrames = 6 \<rparr>"
  by (simp add: processFrames_def rangeOutcomes_def framesToProcessOf_def startFrameOf_def
      endFrameOf_def upto_rec1)

section \<open>Properties of the colour-only shading map\<close>

lemma grid_rows_upt:
  "concat (map (\<lambda>j. map (\<lambda>i. j * W + i) [0..<W]) [0..<H]) = [0..<H * W]"
proof (induction H)
  case 0
  show ?case by simp
next
  case (Suc H)
  have a: "map (\<lambda>i. H * W + i) [0..<W] = [H * W..<H * W + W]"
    using map_add_upt [of "H * W" W] by (simp add: add.commute)
  have b: "[0..<H * W + W] = [0..<H * W] @ [H * W..<H * W + W]"
    by (rule upt_add_eq_append) simp
  have "concat (map (\<lambda>j. map (\<lambda>i. j * W + i) [0..<W]) [0..<Suc H])
      = concat (map (\<lambda>j. map (\<lambda>i. j * W + i) [0..<W]) [0..<H]) @ map (\<lambda>i. H * W + i) [0..<W]"
    by simp
  also have "\<dots> = [0..<H * W + W]" by (simp only: Suc a b)
  finally show ?case by (simp add: add.commute)
qed

lemma gridIndices_upt: "gridIndices w h = [0..<nat h * nat w]"
  by (simp add: gridIndices_def grid_rows_upt)

lemma goodMap_planes:
  assumes "goodMap m n"
  shows "length m = 4" "length (m ! 0) = n" "length (m ! 1) = n" "length (m ! 2) = n" "length (m ! 3) = n"
  using assms by (auto simp: goodMap_def)

lemma planesAt_good:
  assumes "goodMap m n" "k < n"
  shows "planesAt m k = Some (m ! 0 ! k, m ! 1 ! k, m ! 2 ! k, m ! 3 ! k)"
  using goodMap_planes [OF assms(1)] assms(2) by (simp add: planesAt_def)

lemma scanMinima_good:
  assumes "goodMap m n" "\<forall>k \<in> set ks. k < n"
  shows "\<exists>mins'. scanMinima m ks mins = Some mins'"
  using assms(2)
proof (induction ks arbitrary: mins)
  case Nil
  show ?case by simp
next
  case (Cons k ks)
  then show ?case by (simp add: planesAt_good [OF assms(1)])
qed

lemma setCell_good:
  assumes "goodMap m n"
  shows "goodMap (setCell m k (a, b, c, d)) n"
    and "setCell m k (a, b, c, d) ! 0 = (m ! 0) [k := a]"
    and "setCell m k (a, b, c, d) ! 1 = (m ! 1) [k := b]"
    and "setCell m k (a, b, c, d) ! 2 = (m ! 2) [k := c]"
    and "setCell m k (a, b, c, d) ! 3 = (m ! 3) [k := d]"
proof -
  note g = goodMap_planes [OF assms]
  show "goodMap (setCell m k (a, b, c, d)) n"
    using assms by (auto simp: goodMap_def setCell_def)
  show "setCell m k (a, b, c, d) ! 0 = (m ! 0) [k := a]"
    and "setCell m k (a, b, c, d) ! 1 = (m ! 1) [k := b]"
    and "setCell m k (a, b, c, d) ! 2 = (m ! 2) [k := c]"
    and "setCell m k (a, b, c, d) ! 3 = (m ! 3) [k := d]"
    using g(1) by (simp_all add: setCell_def numeral_2_eq_2 numeral_3_eq_3)
qed

lemma cellMin_pos: "positiveCell m k \<Longrightarrow> 0 < cellMin m k"
  by (simp add: positiveCell_def cellMin_def)

lemma divideCell_good:
  assumes "goodMap m n" "k < n" "positiveCell m k"
  shows "divideCell mins m k =
     Inr (setCell m k (m ! 0 ! k / cellMin m k, m ! 1 ! k / cellMin m k,
                       m ! 2 ! k / cellMin m k, m ! 3 ! k / cellMin m k))"
proof -
  have "localMinValue (m ! 0 ! k, m ! 1 ! k, m ! 2 ! k, m ! 3 ! k) = cellMin m k"
    by (simp add: localMinValue_def cellMin_def)
  moreover have "cellMin m k \<noteq> 0" using cellMin_pos [OF assms(3)] by simp
  ultimately show ?thesis
    by (simp add: divideCell_def planesAt_good [OF assms(1,2)] cellGains_def aggressive_def)
qed

lemma divideCells_good:
  assumes "goodMap m n" "distinct ks" "\<forall>k \<in> set ks. k < n" "\<forall>k \<in> set ks. positiveCell m k"
  shows "\<exists>m'. divideCells mins m ks = Inr m' \<and> goodMap m' n
     \<and> (\<forall>k < n. \<forall>ch < 4. m' ! ch ! k = (if k \<in> set ks then m ! ch ! k / cellMin m k else m ! ch ! k))"
  using assms
proof (induction ks arbitrary: m)
  case Nil
  then show ?case by simp
next
  case (Cons k ks)
  define m1 where "m1 = setCell m k (m ! 0 ! k / cellMin m k, m ! 1 ! k / cellMin m k,
                       m ! 2 ! k / cellMin m k, m ! 3 ! k / cellMin m k)"
  from Cons.prems have k: "k < n" "positiveCell m k" "k \<notin> set ks" by simp_all
  note g = goodMap_planes [OF Cons.prems(1)]
  have step: "divideCell mins m k = Inr m1"
    unfolding m1_def by (rule divideCell_good [OF Cons.prems(1) k(1,2)])
  have g1: "goodMap m1 n"
    unfolding m1_def by (rule setCell_good(1) [OF Cons.prems(1)])
  have planes: "m1 ! 0 = (m ! 0) [k := m ! 0 ! k / cellMin m k]"
    "m1 ! 1 = (m ! 1) [k := m ! 1 ! k / cellMin m k]"
    "m1 ! 2 = (m ! 2) [k := m ! 2 ! k / cellMin m k]"
    "m1 ! 3 = (m ! 3) [k := m ! 3 ! k / cellMin m k]"
    unfolding m1_def by (rule setCell_good(2-5) [OF Cons.prems(1)])+
  have ch4: "\<And>ch :: nat. ch < 4 \<Longrightarrow> ch = 0 \<or> ch = 1 \<or> ch = 2 \<or> ch = 3" by arith
  have val: "\<And>ch j. ch < 4 \<Longrightarrow> j < n \<Longrightarrow>
      m1 ! ch ! j = (if j = k then m ! ch ! k / cellMin m k else m ! ch ! j)"
  proof -
    fix ch j :: nat
    assume "ch < 4" "j < n"
    with ch4 [OF \<open>ch < 4\<close>] g planes k(1)
    show "m1 ! ch ! j = (if j = k then m ! ch ! k / cellMin m k else m ! ch ! j)"
      by auto
  qed
  have same: "\<And>j. j < n \<Longrightarrow> j \<noteq> k \<Longrightarrow> positiveCell m1 j = positiveCell m j \<and> cellMin m1 j = cellMin m j"
    using val by (simp add: positiveCell_def cellMin_def)
  have pos1: "\<forall>j \<in> set ks. positiveCell m1 j"
    using Cons.prems k(3) same by auto
  from Cons.IH [OF g1 _ _ pos1] Cons.prems
  obtain m' where m': "divideCells mins m1 ks = Inr m'" "goodMap m' n"
    "\<forall>j < n. \<forall>ch < 4. m' ! ch ! j = (if j \<in> set ks then m1 ! ch ! j / cellMin m1 j else m1 ! ch ! j)"
    by auto
  have "\<forall>j < n. \<forall>ch < 4. m' ! ch ! j = (if j \<in> set (k # ks) then m ! ch ! j / cellMin m j else m ! ch ! j)"
  proof (intro allI impI)
    fix j ch :: nat
    assume j: "j < n" and c: "ch < 4"
    show "m' ! ch ! j = (if j \<in> set (k # ks) then m ! ch ! j / cellMin m j else m ! ch ! j)"
    proof (cases "j = k")
      case True
      with m'(3) j c k(3) val [OF c j] show ?thesis by simp
    next
      case False
      with m'(3) j c val [OF c j] same [OF j False] show ?thesis by simp
    qed
  qed
  with m'(1,2) step show ?case by auto
qed

lemma fold_max_ge: "(acc :: real) \<le> fold (\<lambda>v a. max a v) row acc"
  by (induction row arbitrary: acc) (auto intro: order_trans [OF max.cobounded1])

lemma fold_max_elem: "v \<in> set row \<Longrightarrow> (v :: real) \<le> fold (\<lambda>v a. max a v) row acc"
proof (induction row arbitrary: acc)
  case Nil
  then show ?case by simp
next
  case (Cons x row)
  show ?case
  proof (cases "v = x")
    case True
    have "x \<le> max acc x" by simp
    also have "\<dots> \<le> fold (\<lambda>v a. max a v) row (max acc x)" by (rule fold_max_ge)
    finally show ?thesis using True by simp
  next
    case False
    with Cons show ?thesis by simp
  qed
qed

lemma fold_rows_ge: "(acc :: real) \<le> fold (\<lambda>row acc. fold (\<lambda>v a. max a v) row acc) m acc"
proof (induction m arbitrary: acc)
  case Nil
  show ?case by simp
next
  case (Cons r m)
  have "acc \<le> fold (\<lambda>v a. max a v) r acc" by (rule fold_max_ge)
  also have "\<dots> \<le> fold (\<lambda>row acc. fold (\<lambda>v a. max a v) row acc) m (fold (\<lambda>v a. max a v) r acc)"
    by (rule Cons.IH)
  finally show ?case by simp
qed

lemma maxGain_pos:
  assumes "m \<noteq> []" "m ! 0 \<noteq> []" "\<forall>p \<in> set m. \<forall>v \<in> set p. 0 < v"
  shows "maxGain m \<noteq> 0"
proof -
  from assms obtain r rest where m: "m = r # rest" by (cases m) auto
  with assms obtain v where v: "v \<in> set r" "0 < v" by (cases r) auto
  have "v \<le> fold (\<lambda>v a. max a v) r 0" by (rule fold_max_elem [OF v(1)])
  also have "\<dots> \<le> maxGain m"
    unfolding maxGain_def m by (simp add: fold_rows_ge)
  finally show ?thesis using v(2) by simp
qed

lemma min_div_pos: "0 < (c :: real) \<Longrightarrow> min (a / c) (b / c) = min a b / c"
  by (simp add: min_divide_distrib_right)

lemma fold_min_Min:
  "fold (\<lambda>k a. min a (f k)) ks (a0 :: real) = Min (insert a0 (f ` set ks))"
proof (induction ks arbitrary: a0)
  case Nil
  show ?case by simp
next
  case (Cons k ks)
  have "Min (insert (min a0 (f k)) (f ` set ks)) = Min (insert a0 (insert (f k) (f ` set ks)))"
    by (cases "set ks = {}") (simp_all add: min.assoc)
  with Cons.IH [of "min a0 (f k)"] show ?case by simp
qed

lemma scanMinima_fold:
  assumes "goodMap m n" "\<forall>k \<in> set ks. k < n"
  shows "scanMinima m ks mins = Some
     \<lparr> minValue00 = fold (\<lambda>k a. min a (m ! 0 ! k)) ks (minValue00 mins),
       minValue01 = fold (\<lambda>k a. min a (m ! 1 ! k)) ks (minValue01 mins),
       minValue10 = fold (\<lambda>k a. min a (m ! 2 ! k)) ks (minValue10 mins),
       minValue11 = fold (\<lambda>k a. min a (m ! 3 ! k)) ks (minValue11 mins) \<rparr>"
  using assms(2)
proof (induction ks arbitrary: mins)
  case Nil
  show ?case by simp
next
  case (Cons k ks)
  have e: "\<And>a b :: real. (if a < b then a else b) = min b a" by (simp add: min_def)
  from Cons show ?case by (simp add: planesAt_good [OF assms(1)] e)
qed

lemma plane_minimum:
  assumes "length p = n"
  shows "fold (\<lambda>k a. min a (p ! k)) [0..<n] (10 :: real) = Min (insert 10 (set p))"
proof -
  have "(\<lambda>k. p ! k) ` set [0..<n] = set p"
    using nth_image [of n p] assms by simp
  then show ?thesis by (simp only: fold_min_Min)
qed

lemma scannedMinima_planes:
  assumes "goodMap m (nat w * nat h)"
  shows "scannedMinima m w h = Some
     \<lparr> minValue00 = Min (insert 10 (set (m ! 0))), minValue01 = Min (insert 10 (set (m ! 1))),
       minValue10 = Min (insert 10 (set (m ! 2))), minValue11 = Min (insert 10 (set (m ! 3))) \<rparr>"
proof -
  note g = goodMap_planes [OF assms]
  have idx: "gridIndices w h = [0..<nat w * nat h]" by (simp add: gridIndices_upt mult.commute)
  have "\<forall>k \<in> set [0..<nat w * nat h]. k < nat w * nat h" by simp
  note f = scanMinima_fold [OF assms this]
  show ?thesis
    by (simp only: scannedMinima_def idx f Minima.select_convs plane_minimum [OF g(2)]
        plane_minimum [OF g(3)] plane_minimum [OF g(4)] plane_minimum [OF g(5)])
qed

lemma equalizeGreens_patterns:
  "equalizeGreens [0, 1, 1, 2] mins = mins \<lparr> minValue01 := minValue10 mins \<rparr>"
  "equalizeGreens [2, 1, 1, 0] mins = mins \<lparr> minValue01 := minValue10 mins \<rparr>"
  "equalizeGreens [1, 0, 2, 1] mins = mins \<lparr> minValue00 := minValue11 mins \<rparr>"
  "equalizeGreens [1, 2, 0, 1] mins = mins \<lparr> minValue00 := minValue11 mins \<rparr>"
  by (simp_all add: equalizeGreens_def Let_def)

lemma equalizeGreens_overwrites:
  shows "cfa = [0, 1, 1, 2] \<or> cfa = [2, 1, 1, 0]
           \<Longrightarrow> equalizeGreens cfa mins = mins \<lparr> minValue01 := minValue10 mins \<rparr>"
    and "cfa = [1, 0, 2, 1] \<or> cfa = [1, 2, 0, 1]
           \<Longrightarrow> equalizeGreens cfa mins = mins \<lparr> minValue00 := minValue11 mins \<rparr>"
  using equalizeGreens_patterns [of mins] by blast+

lemma divideCells_any_minima: "divideCells mins m ks = divideCells mins' m ks"
proof (induction ks arbitrary: m)
  case Nil
  show ?case by simp
next
  case (Cons k ks)
  have "\<And>g. cellGains mins g = Some g" "\<And>g. cellGains mins' g = Some g"
    by (simp_all add: cellGains_def aggressive_def split: prod.splits)
  then have "divideCell mins m k = divideCell mins' m k"
    by (cases "planesAt m k") (simp_all add: divideCell_def)
  with Cons show ?case by (simp split: sum.splits)
qed

lemma colorOnly_positive_map:
  assumes dims: "0 < w" "0 < h"
    and good: "length m = 4" "\<forall>p \<in> set m. length p = nat w * nat h"
    and pos: "\<forall>p \<in> set m. \<forall>v \<in> set p. 0 < v"
  shows "\<exists>m'. colorOnlyShadingMap m w h cfa = Inr m' \<and> length m' = 4
      \<and> (\<forall>p \<in> set m'. length p = nat w * nat h)
      \<and> (\<forall>k < nat w * nat h.
            (\<forall>ch < 4. m' ! ch ! k = m ! ch ! k / cellMin m k)
            \<and> cellMin m' k = 1
            \<and> (m ! 0 ! k = m ! 1 ! k \<and> m ! 1 ! k = m ! 2 ! k \<and> m ! 2 ! k = m ! 3 ! k
                 \<longrightarrow> (\<forall>ch < 4. m' ! ch ! k = 1)))"
proof -
  define n where "n = nat w * nat h"
  have n0: "0 < n" using dims by (simp add: n_def)
  have gm: "goodMap m n" using good by (simp add: goodMap_def n_def)
  note g = goodMap_planes [OF gm]
  have ne: "m \<noteq> []" "m ! 0 \<noteq> []" using g n0 by auto
  have idx: "gridIndices w h = [0..<n]" by (simp add: gridIndices_upt n_def mult.commute)
  have mem: "\<And>ch k. ch < 4 \<Longrightarrow> k < n \<Longrightarrow> m ! ch ! k \<in> set (m ! ch) \<and> m ! ch \<in> set m"
    using gm by (auto simp: goodMap_def)
  have pc: "\<forall>k \<in> set [0..<n]. positiveCell m k"
  proof
    fix k assume "k \<in> set [0..<n]"
    then have k: "k < n" by simp
    have "\<And>ch. ch < 4 \<Longrightarrow> 0 < m ! ch ! k" using mem k pos by blast
    then show "positiveCell m k" by (simp add: positiveCell_def)
  qed
  obtain mins0 where sc: "scannedMinima m w h = Some mins0"
    using scanMinima_good [OF gm, of "[0..<n]"] by (auto simp: scannedMinima_def idx)
  from divideCells_good [OF gm _ _ pc, of "equalizeGreens cfa mins0"]
  obtain m' where m': "divideCells (equalizeGreens cfa mins0) m [0..<n] = Inr m'" "goodMap m' n"
    "\<forall>k < n. \<forall>ch < 4. m' ! ch ! k = m ! ch ! k / cellMin m k"
    by auto
  have res: "colorOnlyShadingMap m w h cfa = Inr m'"
    using ne maxGain_pos [OF ne pos] sc m'(1) by (simp add: colorOnlyShadingMap_def idx)
  have cell: "\<And>k. k < n \<Longrightarrow> cellMin m' k = 1"
  proof -
    fix k assume k: "k < n"
    from pc k have p: "0 < cellMin m k" by (simp add: cellMin_pos)
    from m'(3) k have v: "m' ! 0 ! k = m ! 0 ! k / cellMin m k" "m' ! 1 ! k = m ! 1 ! k / cellMin m k"
      "m' ! 2 ! k = m ! 2 ! k / cellMin m k" "m' ! 3 ! k = m ! 3 ! k / cellMin m k"
      by simp_all
    have "cellMin m' k = cellMin m k / cellMin m k"
      unfolding cellMin_def [of m' k] v
      using p by (simp add: min_div_pos cellMin_def [of m k])
    with p show "cellMin m' k = 1" by simp
  qed
  have flat: "\<And>k ch. k < n \<Longrightarrow> ch < 4 \<Longrightarrow>
      m ! 0 ! k = m ! 1 ! k \<and> m ! 1 ! k = m ! 2 ! k \<and> m ! 2 ! k = m ! 3 ! k \<Longrightarrow> m' ! ch ! k = 1"
  proof -
    fix k ch :: nat
    assume k: "k < n" and c: "ch < 4"
      and e: "m ! 0 ! k = m ! 1 ! k \<and> m ! 1 ! k = m ! 2 ! k \<and> m ! 2 ! k = m ! 3 ! k"
    from pc k have p: "0 < cellMin m k" by (simp add: cellMin_pos)
    from c have "ch = 0 \<or> ch = 1 \<or> ch = 2 \<or> ch = 3" by arith
    with e have "m ! ch ! k = cellMin m k" by (auto simp: cellMin_def)
    with m'(3) k c p show "m' ! ch ! k = 1" by simp
  qed
  have l4: "length m' = 4" and lp: "\<forall>p \<in> set m'. length p = n"
    using m'(2) by (auto simp: goodMap_def)
  have body: "\<forall>k < n.
            (\<forall>ch < 4. m' ! ch ! k = m ! ch ! k / cellMin m k)
            \<and> cellMin m' k = 1
            \<and> (m ! 0 ! k = m ! 1 ! k \<and> m ! 1 ! k = m ! 2 ! k \<and> m ! 2 ! k = m ! 3 ! k
                 \<longrightarrow> (\<forall>ch < 4. m' ! ch ! k = 1))"
    using m'(3) cell flat by blast
  show ?thesis
    unfolding n_def [symmetric]
    by (rule exI [of _ m']) (intro conjI res l4 lp body)
qed


lemma colorOnly_uses_minima:
  assumes "0 < w" "0 < h" "length m = 4" "\<forall>p \<in> set m. length p = nat w * nat h"
    and "\<forall>p \<in> set m. \<forall>v \<in> set p. 0 < v" "scannedMinima m w h = Some mins"
  shows "colorOnlyShadingMap m w h cfa = divideCells (equalizeGreens cfa mins) m (gridIndices w h)"
proof -
  have "0 < nat w * nat h" using assms(1,2) by simp
  moreover have "m ! 0 \<in> set m" using assms(3) by simp
  then have "length (m ! 0) = nat w * nat h" using assms(4) by blast
  ultimately have ne: "m \<noteq> []" "m ! 0 \<noteq> []" using assms(3) by auto
  from maxGain_pos [OF ne assms(5)] ne assms(6) show ?thesis
    by (simp add: colorOnlyShadingMap_def)
qed

text \<open>
  Claim C6, as the code has it. A map that is empty, or whose first plane is empty,
  or whose largest gain is 0, is returned unchanged. For a map of four planes that
  cover the grid and hold positive gains, every channel gain of every grid cell is
  divided by the smallest of the four gains of that cell, so afterwards the smallest
  gain of every cell is 1 and a cell with four equal gains becomes (1, 1, 1, 1).
  Before that loop the function holds the minimum of every plane (at most 10), and
  for the patterns with green at positions 1 and 2 the minimum of plane 1 is
  overwritten with that of plane 2, for green at positions 0 and 3 the minimum of
  plane 0 with that of plane 3, so that the two green minima are equal. The result
  is the per-cell division run with these minima, and it is the same for any other
  minima: they enter the result only on the disabled \<open>aggressive\<close> path.
\<close>

theorem C6_color_only_divides_by_cell_minimum:
  "(m = [] \<or> m ! 0 = [] \<or> maxGain m = 0 \<longrightarrow> colorOnlyShadingMap m w h cfa = Inr m)
   \<and> (0 < w \<and> 0 < h \<and> length m = 4 \<and> (\<forall>p \<in> set m. length p = nat w * nat h)
        \<and> (\<forall>p \<in> set m. \<forall>v \<in> set p. 0 < v) \<longrightarrow>
      (\<exists>m' mins. colorOnlyShadingMap m w h cfa = Inr m' \<and> length m' = 4
        \<and> (\<forall>p \<in> set m'. length p = nat w * nat h)
        \<and> (\<forall>k < nat w * nat h.
              (\<forall>ch < 4. m' ! ch ! k = m ! ch ! k / cellMin m k)
              \<and> cellMin m' k = 1
              \<and> (m ! 0 ! k = m ! 1 ! k \<and> m ! 1 ! k = m ! 2 ! k \<and> m ! 2 ! k = m ! 3 ! k
                   \<longrightarrow> (\<forall>ch < 4. m' ! ch ! k = 1)))
        \<and> scannedMinima m w h = Some mins
        \<and> minValue00 mins = Min (insert 10 (set (m ! 0)))
        \<and> minValue01 mins = Min (insert 10 (set (m ! 1)))
        \<and> minValue10 mins = Min (insert 10 (set (m ! 2)))
        \<and> minValue11 mins = Min (insert 10 (set (m ! 3)))
        \<and> colorOnlyShadingMap m w h cfa
             = divideCells (equalizeGreens cfa mins) m (gridIndices w h)
        \<and> (cfa = [0, 1, 1, 2] \<or> cfa = [2, 1, 1, 0]
             \<longrightarrow> equalizeGreens cfa mins = mins \<lparr> minValue01 := minValue10 mins \<rparr>)
        \<and> (cfa = [1, 0, 2, 1] \<or> cfa = [1, 2, 0, 1]
             \<longrightarrow> equalizeGreens cfa mins = mins \<lparr> minValue00 := minValue11 mins \<rparr>)
        \<and> (\<forall>mins'. divideCells mins' m (gridIndices w h) = Inr m')))"
proof (intro conjI impI)
  assume "m = [] \<or> m ! 0 = [] \<or> maxGain m = 0"
  then show "colorOnlyShadingMap m w h cfa = Inr m"
    by (auto simp: colorOnlyShadingMap_def)
next
  assume a: "0 < w \<and> 0 < h \<and> length m = 4 \<and> (\<forall>p \<in> set m. length p = nat w * nat h)
        \<and> (\<forall>p \<in> set m. \<forall>v \<in> set p. 0 < v)"
  then have h: "0 < w" "0 < h" "length m = 4" "\<forall>p \<in> set m. length p = nat w * nat h"
    "\<forall>p \<in> set m. \<forall>v \<in> set p. 0 < v"
    by simp_all
  define mins where "mins =
     \<lparr> minValue00 = Min (insert 10 (set (m ! 0))), minValue01 = Min (insert 10 (set (m ! 1))),
       minValue10 = Min (insert 10 (set (m ! 2))), minValue11 = Min (insert 10 (set (m ! 3))) \<rparr>"
  have gm: "goodMap m (nat w * nat h)" using h(3,4) by (simp add: goodMap_def)
  have sc: "scannedMinima m w h = Some mins"
    unfolding mins_def by (rule scannedMinima_planes [OF gm])
  from colorOnly_positive_map [OF h, of cfa]
  obtain m' where m': "colorOnlyShadingMap m w h cfa = Inr m'" "length m' = 4"
    "\<forall>p \<in> set m'. length p = nat w * nat h"
    "\<forall>k < nat w * nat h.
            (\<forall>ch < 4. m' ! ch ! k = m ! ch ! k / cellMin m k)
            \<and> cellMin m' k = 1
            \<and> (m ! 0 ! k = m ! 1 ! k \<and> m ! 1 ! k = m ! 2 ! k \<and> m ! 2 ! k = m ! 3 ! k
                 \<longrightarrow> (\<forall>ch < 4. m' ! ch ! k = 1))"
    by blast
  have use: "colorOnlyShadingMap m w h cfa = divideCells (equalizeGreens cfa mins) m (gridIndices w h)"
    by (rule colorOnly_uses_minima [OF h sc])
  have any: "\<forall>mins'. divideCells mins' m (gridIndices w h) = Inr m'"
    using use m'(1) divideCells_any_minima [of _ m "gridIndices w h" "equalizeGreens cfa mins"]
    by simp
  have v: "minValue00 mins = Min (insert 10 (set (m ! 0)))"
    "minValue01 mins = Min (insert 10 (set (m ! 1)))"
    "minValue10 mins = Min (insert 10 (set (m ! 2)))"
    "minValue11 mins = Min (insert 10 (set (m ! 3)))"
    by (simp_all add: mins_def)
  have e1: "cfa = [0, 1, 1, 2] \<or> cfa = [2, 1, 1, 0]
             \<longrightarrow> equalizeGreens cfa mins = mins \<lparr> minValue01 := minValue10 mins \<rparr>"
    using equalizeGreens_overwrites(1) [of cfa mins] by blast
  have e2: "cfa = [1, 0, 2, 1] \<or> cfa = [1, 2, 0, 1]
             \<longrightarrow> equalizeGreens cfa mins = mins \<lparr> minValue00 := minValue11 mins \<rparr>"
    using equalizeGreens_overwrites(2) [of cfa mins] by blast
  show "\<exists>m' mins. colorOnlyShadingMap m w h cfa = Inr m' \<and> length m' = 4
        \<and> (\<forall>p \<in> set m'. length p = nat w * nat h)
        \<and> (\<forall>k < nat w * nat h.
              (\<forall>ch < 4. m' ! ch ! k = m ! ch ! k / cellMin m k)
              \<and> cellMin m' k = 1
              \<and> (m ! 0 ! k = m ! 1 ! k \<and> m ! 1 ! k = m ! 2 ! k \<and> m ! 2 ! k = m ! 3 ! k
                   \<longrightarrow> (\<forall>ch < 4. m' ! ch ! k = 1)))
        \<and> scannedMinima m w h = Some mins
        \<and> minValue00 mins = Min (insert 10 (set (m ! 0)))
        \<and> minValue01 mins = Min (insert 10 (set (m ! 1)))
        \<and> minValue10 mins = Min (insert 10 (set (m ! 2)))
        \<and> minValue11 mins = Min (insert 10 (set (m ! 3)))
        \<and> colorOnlyShadingMap m w h cfa
             = divideCells (equalizeGreens cfa mins) m (gridIndices w h)
        \<and> (cfa = [0, 1, 1, 2] \<or> cfa = [2, 1, 1, 0]
             \<longrightarrow> equalizeGreens cfa mins = mins \<lparr> minValue01 := minValue10 mins \<rparr>)
        \<and> (cfa = [1, 0, 2, 1] \<or> cfa = [1, 2, 0, 1]
             \<longrightarrow> equalizeGreens cfa mins = mins \<lparr> minValue00 := minValue11 mins \<rparr>)
        \<and> (\<forall>mins'. divideCells mins' m (gridIndices w h) = Inr m')"
    by (rule exI [of _ m'], rule exI [of _ mins])
      (intro conjI m'(1) m'(2) m'(3) m'(4) sc v use e1 e2 any)
qed

theorem C6_color_only_divides_by_cell_minimum_witness:
  "length [[2, 4], [3, 4], [4, 4], [8, 5 :: real]] = 4
   \<and> colorOnlyShadingMap [[2, 4], [3, 4], [4, 4], [8, 5]] 2 1 [0, 1, 1, 2]
        = Inr [[1, 1], [3 / 2, 1], [2, 1], [4, 5 / 4]]
   \<and> cellMin [[1, 1], [3 / 2, 1], [2, 1], [4, 5 / 4]] 0 = 1
   \<and> cellMin [[1, 1], [3 / 2, 1], [2, 1], [4, 5 / 4]] 1 = 1
   \<and> scannedMinima [[2, 4], [3, 4], [4, 4], [8, 5]] 2 1
        = Some \<lparr> minValue00 = 2, minValue01 = 3, minValue10 = 4, minValue11 = 5 \<rparr>
   \<and> equalizeGreens [0, 1, 1, 2] \<lparr> minValue00 = 2, minValue01 = 3, minValue10 = 4, minValue11 = 5 \<rparr>
        = \<lparr> minValue00 = 2, minValue01 = 4, minValue10 = 4, minValue11 = 5 \<rparr>
   \<and> colorOnlyShadingMap [[0, 0], [0, 0], [0, 0], [0, 0]] 2 1 [0, 1, 1, 2]
        = Inr [[0, 0], [0, 0], [0, 0], [0, 0]]"
proof -
  let ?m = "[[2, 4], [3, 4], [4, 4], [8, 5 :: real]]"
  let ?z = "[[0, 0], [0, 0], [0, 0], [0, 0 :: real]]"
  have h: "(0::int) < 2 \<and> (0::int) < 1 \<and> length ?m = 4 \<and> (\<forall>p \<in> set ?m. length p = nat 2 * nat 1)
    \<and> (\<forall>p \<in> set ?m. \<forall>v \<in> set p. 0 < v)"
    by simp
  from C6_color_only_divides_by_cell_minimum [of ?m 2 1 "[0, 1, 1, 2]"] h
  obtain m' mins where m': "colorOnlyShadingMap ?m 2 1 [0, 1, 1, 2] = Inr m'"
    "\<forall>k < nat 2 * nat 1. (\<forall>ch < 4. m' ! ch ! k = ?m ! ch ! k / cellMin ?m k) \<and> cellMin m' k = 1
        \<and> (?m ! 0 ! k = ?m ! 1 ! k \<and> ?m ! 1 ! k = ?m ! 2 ! k \<and> ?m ! 2 ! k = ?m ! 3 ! k
              \<longrightarrow> (\<forall>ch < 4. m' ! ch ! k = 1))"
    "scannedMinima ?m 2 1 = Some mins"
    "minValue00 mins = Min (insert 10 (set (?m ! 0)))"
    "minValue01 mins = Min (insert 10 (set (?m ! 1)))"
    "minValue10 mins = Min (insert 10 (set (?m ! 2)))"
    "minValue11 mins = Min (insert 10 (set (?m ! 3)))"
    "[0, 1, 1, 2] = [0, 1, 1, 2 :: u8] \<or> [0, 1, 1, 2] = [2, 1, 1, 0 :: u8]
       \<longrightarrow> equalizeGreens [0, 1, 1, 2] mins = mins \<lparr> minValue01 := minValue10 mins \<rparr>"
    by blast
  have mv: "mins = \<lparr> minValue00 = 2, minValue01 = 3, minValue10 = 4, minValue11 = 5 \<rparr>"
    using m'(4-7) by (cases mins) simp
  have ev: "colorOnlyShadingMap ?m 2 1 [0, 1, 1, 2] = Inr [[1, 1], [3 / 2, 1], [2, 1], [4, 5 / 4]]"
    by (simp add: colorOnlyShadingMap_def maxGain_def scannedMinima_def gridIndices_upt upt_rec
        planesAt_def equalizeGreens_def divideCell_def cellGains_def aggressive_def
        localMinValue_def setCell_def)
  with m'(1) have e: "m' = [[1, 1], [3 / 2, 1], [2, 1], [4, 5 / 4]]" by simp
  from m'(2) have c: "cellMin m' 0 = 1" "cellMin m' 1 = 1" by simp_all
  from m'(8) have g: "equalizeGreens [0, 1, 1, 2] mins = mins \<lparr> minValue01 := minValue10 mins \<rparr>"
    by simp
  have z: "colorOnlyShadingMap ?z 2 1 [0, 1, 1, 2] = Inr ?z"
    using C6_color_only_divides_by_cell_minimum [of ?z 2 1 "[0, 1, 1, 2]"]
    by (simp add: maxGain_def)
  have l: "length ?m = 4" by simp
  from m'(3) have s: "scannedMinima ?m 2 1
        = Some \<lparr> minValue00 = 2, minValue01 = 3, minValue10 = 4, minValue11 = 5 \<rparr>"
    by (simp only: mv)
  from g have g': "equalizeGreens [0, 1, 1, 2] \<lparr> minValue00 = 2, minValue01 = 3, minValue10 = 4, minValue11 = 5 \<rparr>
        = \<lparr> minValue00 = 2, minValue01 = 4, minValue10 = 4, minValue11 = 5 \<rparr>"
    by (simp add: mv)
  from c have c': "cellMin [[1, 1], [3 / 2, 1], [2, 1], [4, 5 / 4]] 0 = 1"
    "cellMin [[1, 1], [3 / 2, 1], [2, 1], [4, 5 / 4]] 1 = 1"
    by (simp_all only: e)
  from l ev c' s g' z show ?thesis by (intro conjI)
qed

text \<open>
  The claim as the specification words it fails on a map whose gains are all zero:
  the function returns before the reduction (the guard against division by zero),
  so the flat cell (0, 0, 0, 0) stays as it is and its smallest gain is 0, not 1.
\<close>

theorem C6_zero_map_unchanged_counterexample:
  "colorOnlyShadingMap [[0], [0], [0], [0]] 1 1 [0, 1, 1, 2] = Inr [[0], [0], [0], [0]]
   \<and> cellMin [[0], [0], [0], [0]] 0 = 0"
  by (simp add: colorOnlyShadingMap_def maxGain_def cellMin_def)

section \<open>Packing followed by unpacking\<close>

lemma bit_below: "p < 2 ^ n \<Longrightarrow> bit p k \<Longrightarrow> k < n" for p :: u16
  by (metis bit_take_bit_iff less_mask_eq take_bit_eq_mask)

lemma masks16:
  "(0x03 :: u16) = mask 2" "(0x0F :: u16) = mask 4" "(0x3F :: u16) = mask 6" "(0xFF :: u16) = mask 8"
  by (simp_all add: mask_eq_exp_minus_1)

lemma masks32:
  "(0x03 :: u32) = mask 2" "(0x0F :: u32) = mask 4" "(0x3F :: u32) = mask 6" "(0xFF :: u32) = mask 8"
  by (simp_all add: mask_eq_exp_minus_1)

lemma below_16_cases:
  "n < 16 \<Longrightarrow> n \<in> {15, 14, 13, 12, 11, 10, 9, 8, 7, 6, 5, 4, 3, 2, 1, 0 :: nat}"
  by simp arith

lemma high_bits_12:
  fixes p :: u16
  assumes "p < 2 ^ 12"
  shows "\<not> bit p 12" "\<not> bit p 13" "\<not> bit p 14" "\<not> bit p 15"
  using bit_below [OF assms] by fastforce+

lemma high_bits_10:
  fixes p :: u16
  assumes "p < 2 ^ 10"
  shows "\<not> bit p 10" "\<not> bit p 11" "\<not> bit p 12" "\<not> bit p 13" "\<not> bit p 14" "\<not> bit p 15"
  using bit_below [OF assms] by fastforce+

lemma le16_bytes: "le16 (ucast p) (ucast (drop_bit 8 p)) = p" for p :: u16
  unfolding le16_def by (rule bit_word_eqI) (auto simp: bit_simps)

lemma dec12_enc12:
  fixes p0 p1 :: u16
  assumes "p0 < 2 ^ 12" "p1 < 2 ^ 12"
  shows "dec12_0 4 (ucast (drop_bit 4 p0)) (ucast (push_bit 4 (p0 AND 0x0F) OR drop_bit 8 p1))
           = push_bit 4 p0"
    and "dec12_1 4 (ucast (push_bit 4 (p0 AND 0x0F) OR drop_bit 8 p1)) (ucast (p1 AND 0xFF))
           = push_bit 4 p1"
  unfolding masks16 masks32 dec12_0_def dec12_1_def
   apply (rule bit_word_eqI)
   apply (simp only: len_of_numeral_defs)
   apply simp
   apply (drule below_16_cases)
   apply (elim insertE emptyE)
                  apply (simp_all add: bit_simps b32_def high_bits_12 [OF assms(1)] high_bits_12 [OF assms(2)] masks32) [16]
  apply (rule bit_word_eqI)
  apply (simp only: len_of_numeral_defs)
  apply simp
  apply (drule below_16_cases)
  apply (elim insertE emptyE)
                 apply (simp_all add: bit_simps b32_def high_bits_12 [OF assms(1)] high_bits_12 [OF assms(2)] masks32)
  done

lemma dec10_enc10:
  fixes p0 p1 p2 p3 :: u16
  assumes "p0 < 2 ^ 10" "p1 < 2 ^ 10" "p2 < 2 ^ 10" "p3 < 2 ^ 10"
  shows "dec10_0 6 (ucast (drop_bit 2 p0)) (ucast (push_bit 6 (p0 AND 0x03) OR drop_bit 4 p1))
           = push_bit 6 p0"
    and "dec10_1 6 (ucast (push_bit 6 (p0 AND 0x03) OR drop_bit 4 p1))
                   (ucast (push_bit 4 (p1 AND 0x0F) OR drop_bit 6 p2))
           = push_bit 6 p1"
    and "dec10_2 6 (ucast (push_bit 4 (p1 AND 0x0F) OR drop_bit 6 p2))
                   (ucast (push_bit 2 (p2 AND 0x3F) OR drop_bit 8 p3))
           = push_bit 6 p2"
    and "dec10_3 6 (ucast (push_bit 2 (p2 AND 0x3F) OR drop_bit 8 p3)) (ucast (p3 AND 0xFF))
           = push_bit 6 p3"
  unfolding masks16 masks32 dec10_0_def dec10_1_def dec10_2_def dec10_3_def
     apply (rule bit_word_eqI, simp only: len_of_numeral_defs, simp, drule below_16_cases, elim insertE emptyE)
                    apply (simp_all add: bit_simps b32_def masks32 high_bits_10 [OF assms(1)]
      high_bits_10 [OF assms(2)] high_bits_10 [OF assms(3)] high_bits_10 [OF assms(4)]) [16]
    apply (rule bit_word_eqI, simp only: len_of_numeral_defs, simp, drule below_16_cases, elim insertE emptyE)
                   apply (simp_all add: bit_simps b32_def masks32 high_bits_10 [OF assms(1)]
      high_bits_10 [OF assms(2)] high_bits_10 [OF assms(3)] high_bits_10 [OF assms(4)]) [16]
   apply (rule bit_word_eqI, simp only: len_of_numeral_defs, simp, drule below_16_cases, elim insertE emptyE)
                  apply (simp_all add: bit_simps b32_def masks32 high_bits_10 [OF assms(1)]
      high_bits_10 [OF assms(2)] high_bits_10 [OF assms(3)] high_bits_10 [OF assms(4)]) [16]
  apply (rule bit_word_eqI, simp only: len_of_numeral_defs, simp, drule below_16_cases, elim insertE emptyE)
                 apply (simp_all add: bit_simps b32_def masks32 high_bits_10 [OF assms(1)]
      high_bits_10 [OF assms(2)] high_bits_10 [OF assms(3)] high_bits_10 [OF assms(4)])
  done

lemma unpack12_one_group:
  "unpackBits [c0, c1, c2] 2 12 = Inr [dec12_0 4 c0 c1, dec12_1 4 c1 c2]"
  by (simp add: unpackBits_def numeral_2_eq_2)

lemma unpack10_one_group:
  "unpackBits [c0, c1, c2, c3, c4] 4 10
     = Inr [dec10_0 6 c0 c1, dec10_1 6 c1 c2, dec10_2 6 c2 c3, dec10_3 6 c3 c4]"
  by (simp add: unpackBits_def numeral_eq_Suc)

lemma pack12_one_group: "packSamples 12 [p0, p1] 2 1 = Some (bytes12 p0 p1)"
  by (simp add: packSamples_def encodeTo12Bit_def)

lemma pack10_one_group: "packSamples 10 [p0, p1, p2, p3] 4 1 = Some (bytes10 p0 p1 p2 p3)"
  by (simp add: packSamples_def encodeTo10Bit_def)

lemma u16Bytes_length: "length (u16Bytes src) = 2 * length src"
  by (induction src) (simp_all add: u16Bytes_def)

lemma u16Bytes_nth:
  assumes "i < length src"
  shows "u16Bytes src ! (2 * i) = ucast (src ! i)"
    and "u16Bytes src ! (2 * i + 1) = ucast (drop_bit 8 (src ! i))"
  using assms
proof (induction src arbitrary: i)
  case Nil
  case 1 then show ?case by simp
next
  case Nil
  case 2 then show ?case by simp
next
  case (Cons p src)
  case 1
  then show ?case
    using Cons.IH(1) [of "i - 1"] by (cases i) (simp_all add: u16Bytes_def)
next
  case (Cons p src)
  case 2
  then show ?case
    using Cons.IH(2) [of "i - 1"] by (cases i) (simp_all add: u16Bytes_def)
qed

lemma unpack16_u16Bytes:
  assumes "i \<le> length src" "length result = length src" "take i result = take i src"
  shows "unpack16 (u16Bytes src) (length src) i result = Inr src"
  using assms
proof (induction "length src - i" arbitrary: i result)
  case 0
  then have "i = length src" by simp
  with 0 show ?case by (simp add: u16Bytes_length)
next
  case (Suc d)
  then have i: "i < length src" by simp
  let ?r = "result [i := le16 (u16Bytes src ! (2 * i)) (u16Bytes src ! (2 * i + 1))]"
  have v: "le16 (u16Bytes src ! (2 * i)) (u16Bytes src ! (2 * i + 1)) = src ! i"
    by (simp only: u16Bytes_nth [OF i] le16_bytes)
  have t: "take (i + 1) ?r = take (i + 1) src"
    unfolding v using Suc.prems i by (simp add: take_Suc_conv_app_nth)
  have "unpack16 (u16Bytes src) (length src) (i + 1) ?r = Inr src"
    using Suc.hyps(2) Suc.prems i by (intro Suc.hyps(1) t) simp_all
  then show ?case
    using i by (subst unpack16.simps) (simp add: u16Bytes_length)
qed

lemma roundTrip_16:
  assumes "length src = width * height"
  shows "roundTrip 16 src width height = Some (Inr src)"
proof -
  have "unpack16 (u16Bytes src) (length src) 0 (replicate (length src) 0) = Inr src"
    by (rule unpack16_u16Bytes) simp_all
  with assms show ?thesis
    by (simp add: roundTrip_def packSamples_def unpackBits_def)
qed

lemma encode8_all:
  "length src = n \<Longrightarrow> encode8 n src = Some (map (\<lambda>p. ucast (p AND 0xFF)) src)"
proof (induction n arbitrary: src)
  case 0
  then show ?case by simp
next
  case (Suc n)
  then obtain p0 rest where "src = p0 # rest" "length rest = n" by (cases src) auto
  with Suc.IH [of rest] show ?case by simp
qed

lemma unpack16_odd_length:
  assumes "odd (length packed)" "length packed < 2 * pixelCount" "2 * i < length packed"
  shows "unpack16 packed pixelCount i result = Inl RangeError"
  using assms
proof (induction packed pixelCount i result rule: unpack16.induct)
  case (1 packed pixelCount i result)
  show ?case
  proof (cases "2 * i + 2 \<le> length packed")
    case False
    with "1.prems" show ?thesis by (subst unpack16.simps) simp
  next
    case True
    with "1.prems"(1) have "2 * (i + 1) < length packed" by presburger
    with True "1.prems" have "unpack16 packed pixelCount (i + 1)
        (result [i := le16 (packed ! (2 * i)) (packed ! (2 * i + 1))]) = Inl RangeError"
      by (intro "1.IH") simp_all
    with True "1.prems" show ?thesis by (subst unpack16.simps) simp
  qed
qed

lemma roundTrip_8_odd:
  assumes "odd (width * height)" "length src = width * height"
  shows "roundTrip 8 src width height = Some (Inl RangeError)"
proof -
  let ?packed = "map (\<lambda>p. ucast (p AND 0xFF) :: u8) src"
  have p: "packSamples 8 src width height = Some ?packed"
    using assms(2) by (simp add: packSamples_def encodeTo8Bit_def encode8_all mult.commute)
  have n: "0 < width * height" using assms(1) by (cases "width * height") simp_all
  have "unpack16 ?packed (width * height) 0 (replicate (width * height) 0) = Inl RangeError"
    using assms n by (intro unpack16_odd_length) simp_all
  then show ?thesis by (simp add: roundTrip_def p unpackBits_def)
qed

lemma roundTrip_14_group:
  "roundTrip 14 [r0, r1, r2, r3] 4 1 = Some (Inl RangeError)"
proof -
  have p: "packSamples 14 [r0, r1, r2, r3] 4 1 = Some (bytes14 r0 r1 r2 r3)"
    by (simp add: packSamples_def encodeTo14Bit_def)
  have l: "length (bytes14 r0 r1 r2 r3) = 7" by (simp add: bytes14_def)
  have "unpack16 (bytes14 r0 r1 r2 r3) 4 0 (replicate 4 0) = Inl RangeError"
    by (rule unpack16_odd_length) (simp_all add: l)
  then show ?thesis
    unfolding roundTrip_def p by (simp add: unpackBits_def del: unpack16.simps)
qed

text \<open>
  Claim C1, as the code has it. At 16 bits the buffer is stored as it is and
  unpacking returns every sample unchanged, for a single sample and for any buffer.
  At 12 and 10 bits the encoders pack whole groups of 2 and 4 samples, and
  unpacking a packed group returns every sample of the group shifted left by
  \<open>16 - bits\<close>, that is the sample times \<open>2^4\<close> and \<open>2^6\<close>, not the sample itself.
  At 8 and 14 bits \<open>unpackBits\<close> has no branch of its own and falls back to reading
  16-bit words: unpacking the packed form of a single 8-bit sample, or of any
  buffer with an odd number of 8-bit samples, raises a \<open>RangeError\<close>, and so does
  unpacking any packed group of four 14-bit samples (seven bytes).
\<close>

theorem C1_unpack_of_pack:
  fixes v p0 p1 q0 q1 q2 q3 v8 r0 r1 r2 r3 :: u16
  shows "roundTrip 16 [v] 1 1 = Some (Inr [v])
    \<and> (length src = width * height \<longrightarrow> roundTrip 16 src width height = Some (Inr src))
    \<and> (p0 < 2 ^ 12 \<and> p1 < 2 ^ 12
         \<longrightarrow> roundTrip 12 [p0, p1] 2 1 = Some (Inr [p0 * 2 ^ 4, p1 * 2 ^ 4]))
    \<and> (q0 < 2 ^ 10 \<and> q1 < 2 ^ 10 \<and> q2 < 2 ^ 10 \<and> q3 < 2 ^ 10
         \<longrightarrow> roundTrip 10 [q0, q1, q2, q3] 4 1
               = Some (Inr [q0 * 2 ^ 6, q1 * 2 ^ 6, q2 * 2 ^ 6, q3 * 2 ^ 6]))
    \<and> roundTrip 8 [v8] 1 1 = Some (Inl RangeError)
    \<and> (odd (width8 * height8) \<and> length src8 = width8 * height8
         \<longrightarrow> roundTrip 8 src8 width8 height8 = Some (Inl RangeError))
    \<and> roundTrip 14 [r0, r1, r2, r3] 4 1 = Some (Inl RangeError)"
proof (intro conjI impI)
  show "roundTrip 16 [v] 1 1 = Some (Inr [v])"
    by (rule roundTrip_16) simp
  show "roundTrip 16 src width height = Some (Inr src)" if "length src = width * height"
    using that by (rule roundTrip_16)
  show "roundTrip 12 [p0, p1] 2 1 = Some (Inr [p0 * 2 ^ 4, p1 * 2 ^ 4])"
    if "p0 < 2 ^ 12 \<and> p1 < 2 ^ 12"
  proof -
    from that have a: "p0 < 2 ^ 12" "p1 < 2 ^ 12" by simp_all
    have "roundTrip 12 [p0, p1] 2 1 = Some (Inr [push_bit 4 p0, push_bit 4 p1])"
      unfolding roundTrip_def pack12_one_group bytes12_def
      by (simp only: option.map unpack12_one_group dec12_enc12 [OF a] mult_2 mult_1 one_add_one)
    then show ?thesis by (simp add: push_bit_eq_mult)
  qed
  show "roundTrip 10 [q0, q1, q2, q3] 4 1 = Some (Inr [q0 * 2 ^ 6, q1 * 2 ^ 6, q2 * 2 ^ 6, q3 * 2 ^ 6])"
    if "q0 < 2 ^ 10 \<and> q1 < 2 ^ 10 \<and> q2 < 2 ^ 10 \<and> q3 < 2 ^ 10"
  proof -
    from that have a: "q0 < 2 ^ 10" "q1 < 2 ^ 10" "q2 < 2 ^ 10" "q3 < 2 ^ 10" by simp_all
    have "roundTrip 10 [q0, q1, q2, q3] 4 1
        = Some (Inr [push_bit 6 q0, push_bit 6 q1, push_bit 6 q2, push_bit 6 q3])"
      unfolding roundTrip_def pack10_one_group bytes10_def
      by (simp only: option.map unpack10_one_group dec10_enc10 [OF a] mult_1_right)
    then show ?thesis by (simp add: push_bit_eq_mult)
  qed
  show "roundTrip 8 [v8] 1 1 = Some (Inl RangeError)"
    by (rule roundTrip_8_odd) simp_all
  show "roundTrip 8 src8 width8 height8 = Some (Inl RangeError)"
    if "odd (width8 * height8) \<and> length src8 = width8 * height8"
    using that by (intro roundTrip_8_odd) simp_all
  show "roundTrip 14 [r0, r1, r2, r3] 4 1 = Some (Inl RangeError)"
    by (rule roundTrip_14_group)
qed

theorem C1_unpack_of_pack_witness:
  "roundTrip 16 [4660] 1 1 = Some (Inr [4660])
   \<and> roundTrip 12 [1, 4095] 2 1 = Some (Inr [16, 65520])
   \<and> roundTrip 10 [1, 2, 3, 1023] 4 1 = Some (Inr [64, 128, 192, 65472])
   \<and> roundTrip 8 [7] 1 1 = Some (Inl RangeError)
   \<and> roundTrip 8 [5, 6, 7] 3 1 = Some (Inl RangeError)
   \<and> roundTrip 14 [1, 2, 3, 4] 4 1 = Some (Inl RangeError)"
proof -
  note t = C1_unpack_of_pack [of 4660 "[]" 0 0 1 4095 1 2 3 1023 7 3 1 "[5, 6, 7]" 1 2 3 4]
  from t have a: "roundTrip 16 [4660] 1 1 = Some (Inr [4660])" by (rule conjunct1)
  from t have "(1 :: u16) < 2 ^ 12 \<and> (4095 :: u16) < 2 ^ 12
      \<longrightarrow> roundTrip 12 [1, 4095] 2 1 = Some (Inr [1 * 2 ^ 4, 4095 * 2 ^ 4])"
    by (rule conjunct2 [THEN conjunct2, THEN conjunct1])
  then have b: "roundTrip 12 [1, 4095] 2 1 = Some (Inr [16, 65520])" by simp
  from t have "(1 :: u16) < 2 ^ 10 \<and> (2 :: u16) < 2 ^ 10 \<and> (3 :: u16) < 2 ^ 10 \<and> (1023 :: u16) < 2 ^ 10
      \<longrightarrow> roundTrip 10 [1, 2, 3, 1023] 4 1 = Some (Inr [1 * 2 ^ 6, 2 * 2 ^ 6, 3 * 2 ^ 6, 1023 * 2 ^ 6])"
    by (rule conjunct2 [THEN conjunct2, THEN conjunct2, THEN conjunct1])
  then have c: "roundTrip 10 [1, 2, 3, 1023] 4 1 = Some (Inr [64, 128, 192, 65472])" by simp
  from t have d: "roundTrip 8 [7] 1 1 = Some (Inl RangeError)"
    by (rule conjunct2 [THEN conjunct2, THEN conjunct2, THEN conjunct2, THEN conjunct1])
  from t have "odd (3 * 1 :: nat) \<and> length [5, 6, 7 :: u16] = 3 * 1
      \<longrightarrow> roundTrip 8 [5, 6, 7] 3 1 = Some (Inl RangeError)"
    by (rule conjunct2 [THEN conjunct2, THEN conjunct2, THEN conjunct2, THEN conjunct2, THEN conjunct1])
  then have e: "roundTrip 8 [5, 6, 7] 3 1 = Some (Inl RangeError)" by simp
  from t have f: "roundTrip 14 [1, 2, 3, 4] 4 1 = Some (Inl RangeError)"
    by (rule conjunct2 [THEN conjunct2, THEN conjunct2, THEN conjunct2, THEN conjunct2, THEN conjunct2])
  from a b c d e f show ?thesis by (intro conjI)
qed

text \<open>
  The claim as the specification words it fails at 8 bits: one sample is packed into
  one byte, \<open>unpackBits\<close> has no 8-bit branch, and its 16-bit fallback asks for a
  two-byte word of a one-byte view.
\<close>

theorem C1_roundtrip_8bit_counterexample:
  "packSamples 8 [5] 1 1 = Some [5] \<and> unpackBits [5] 1 8 = Inl RangeError
   \<and> roundTrip 8 [5] 1 1 \<noteq> Some (Inr [5])"
  by (simp add: roundTrip_def packSamples_def encodeTo8Bit_def unpackBits_def)

section \<open>Properties of the frame index\<close>

lemma typedFrame_fields:
  "flagBySize e (typedFrame e bytes off fc cur)"
  "stamped (1000000 / 24) fc (typedFrame e bytes off fc cur)"
  by (simp_all add: flagBySize_def stamped_def typedFrame_def Let_def)

declare scanTyped.simps [simp del] scanSizePrefixedZstd.simps [simp del]
  findZstdMagic.simps [simp del]

lemma scanTyped_stop:
  "\<not> (off + 8 < length bytes \<and> nv < 5) \<Longrightarrow> scanTyped pm e bytes off fc nv cur infos = (fc, infos)"
  by (subst scanTyped.simps) auto

lemma scanTyped_skip:
  "off + 8 < length bytes \<and> nv < 5 \<Longrightarrow> \<not> isValidFrame bytes off \<Longrightarrow> \<not> isValidAudio bytes off \<Longrightarrow>
   scanTyped pm e bytes off fc nv cur infos = scanTyped pm e bytes (off + 1) fc (nv + 1) cur infos"
  by (subst scanTyped.simps) simp

lemma scanTyped_frame:
  "off + 8 < length bytes \<and> nv < 5 \<Longrightarrow> isValidFrame bytes off \<Longrightarrow>
   scanTyped pm e bytes off fc nv cur infos
     = scanTyped pm e bytes (off + 8 + blockSizeAt bytes off) (fc + 1) 0 None
         (infos @ [typedFrame e bytes off fc cur])"
  by (subst scanTyped.simps) simp

lemma scanTyped_audio:
  "off + 8 < length bytes \<and> nv < 5 \<Longrightarrow> \<not> isValidFrame bytes off \<Longrightarrow> isValidAudio bytes off \<Longrightarrow>
   scanTyped pm e bytes off fc nv cur infos
     = scanTyped pm e bytes (off + 8 + blockSizeAt bytes off) fc 0
         (audioMetadata pm bytes off cur) infos"
  by (subst scanTyped.simps) simp

lemma scanTyped_invariant:
  assumes "P fc infos"
    and step: "\<And>off fc cur infos. P fc infos \<Longrightarrow> P (fc + 1) (infos @ [typedFrame e bytes off fc cur])"
  shows "P (fst (scanTyped pm e bytes off fc nv cur infos))
           (snd (scanTyped pm e bytes off fc nv cur infos))"
  using assms
proof (induction pm e bytes off fc nv cur infos rule: scanTyped.induct)
  case (1 pm e bytes off fc nv cur infos)
  note IH = "1.IH" and init = "1.prems"(1) and step = "1.prems"(2)
  show ?case
  proof (cases "off + 8 < length bytes \<and> nv < 5")
    case False
    with init show ?thesis by (simp add: scanTyped_stop)
  next
    case c: True
    show ?thesis
    proof (cases "isValidFrame bytes off")
      case True
      from init have "P (fc + 1) (infos @ [typedFrame e bytes off fc cur])" by (rule step)
      with c True have "P (fst (scanTyped pm e bytes (off + 8 + blockSizeAt bytes off) (fc + 1) 0 None
            (infos @ [typedFrame e bytes off fc cur])))
          (snd (scanTyped pm e bytes (off + 8 + blockSizeAt bytes off) (fc + 1) 0 None
            (infos @ [typedFrame e bytes off fc cur])))"
        using step by (intro IH(2)) simp_all
      with c True show ?thesis by (simp add: scanTyped_frame)
    next
      case f: False
      show ?thesis
      proof (cases "isValidAudio bytes off")
        case True
        with c f init have "P (fst (scanTyped pm e bytes (off + 8 + blockSizeAt bytes off) fc 0
              (audioMetadata pm bytes off cur) infos))
            (snd (scanTyped pm e bytes (off + 8 + blockSizeAt bytes off) fc 0
              (audioMetadata pm bytes off cur) infos))"
          using step by (intro IH(3)) simp_all
        with c f True show ?thesis by (simp add: scanTyped_audio)
      next
        case False
        with c f init have "P (fst (scanTyped pm e bytes (off + 1) fc (nv + 1) cur infos))
            (snd (scanTyped pm e bytes (off + 1) fc (nv + 1) cur infos))"
          using step by (intro IH(1)) simp_all
        with c f False show ?thesis by (simp add: scanTyped_skip)
      qed
    qed
  qed
qed

lemma scanTyped_flags:
  "\<forall>f \<in> set (snd (scanTyped pm e bytes off 0 nv cur [])). flagBySize e f"
  by (rule scanTyped_invariant [where P = "\<lambda>fc infos. \<forall>f \<in> set infos. flagBySize e f"])
    (simp_all add: typedFrame_fields)

lemma scanTyped_stamps:
  "fst (scanTyped pm e bytes off 0 nv cur []) = length (snd (scanTyped pm e bytes off 0 nv cur []))
    \<and> (\<forall>i < length (snd (scanTyped pm e bytes off 0 nv cur [])).
          stamped (1000000 / 24) i (snd (scanTyped pm e bytes off 0 nv cur []) ! i))"
  by (rule scanTyped_invariant [where P = "\<lambda>fc infos. fc = length infos
        \<and> (\<forall>i < length infos. stamped (1000000 / 24) i (infos ! i))"])
    (use typedFrame_fields(2) in \<open>auto simp: nth_append less_Suc_eq\<close>)

lemma scanSized_stop:
  "\<not> (off + 8 < length bytes \<and> isSizedZstdFrame bytes off) \<Longrightarrow> scanSizePrefixedZstd bytes off infos = infos"
  by (subst scanSizePrefixedZstd.simps) auto

lemma scanSized_frame:
  "off + 8 < length bytes \<and> isSizedZstdFrame bytes off \<Longrightarrow>
   scanSizePrefixedZstd bytes off infos
     = scanSizePrefixedZstd bytes (off + 4 + u32le bytes off)
         (infos @ [sizedFrame bytes off (length infos)])"
  by (subst scanSizePrefixedZstd.simps) simp

lemma scanSized_invariant:
  assumes "P infos"
    and step: "\<And>off infos. P infos \<Longrightarrow> isSizedZstdFrame bytes off
                 \<Longrightarrow> P (infos @ [sizedFrame bytes off (length infos)])"
  shows "P (scanSizePrefixedZstd bytes off infos)"
  using assms
proof (induction bytes off infos rule: scanSizePrefixedZstd.induct)
  case (1 bytes off infos)
  note IH = "1.IH" and init = "1.prems"(1) and step = "1.prems"(2)
  show ?case
  proof (cases "off + 8 < length bytes \<and> isSizedZstdFrame bytes off")
    case False
    with init show ?thesis by (simp add: scanSized_stop)
  next
    case True
    with init have "P (infos @ [sizedFrame bytes off (length infos)])" by (intro step) simp_all
    with True have "P (scanSizePrefixedZstd bytes (off + 4 + u32le bytes off)
         (infos @ [sizedFrame bytes off (length infos)]))"
      using step by (intro IH) simp_all
    with True show ?thesis by (simp add: scanSized_frame)
  qed
qed

lemma scanSized_flags:
  "\<forall>f \<in> set (scanSizePrefixedZstd bytes off []). zstdFlagged bytes f"
  by (rule scanSized_invariant [where P = "\<lambda>infos. \<forall>f \<in> set infos. zstdFlagged bytes f"])
    (simp_all add: zstdFlagged_def sizedFrame_def isSizedZstdFrame_def)

lemma scanSized_stamps:
  "\<forall>i < length (scanSizePrefixedZstd bytes off []).
           f_timestamp (scanSizePrefixedZstd bytes off [] ! i) = real i * (1000 / 24)"
  by (rule scanSized_invariant
        [where P = "\<lambda>infos. \<forall>i < length infos. f_timestamp (infos ! i) = real i * (1000 / 24)"])
    (auto simp: nth_append less_Suc_eq sizedFrame_def)

lemma findZstdMagic_stop:
  "\<not> i + 4 < length bytes \<Longrightarrow> findZstdMagic bytes i acc = acc"
  by (subst findZstdMagic.simps) simp

lemma findZstdMagic_hit:
  "i + 4 < length bytes \<Longrightarrow> zstdMagicAt bytes i \<Longrightarrow>
   findZstdMagic bytes i acc = findZstdMagic bytes (i + 100 + 1) (acc @ [i])"
  by (subst findZstdMagic.simps) simp

lemma findZstdMagic_miss:
  "i + 4 < length bytes \<Longrightarrow> \<not> zstdMagicAt bytes i \<Longrightarrow>
   findZstdMagic bytes i acc = findZstdMagic bytes (i + 1) acc"
  by (subst findZstdMagic.simps) simp

lemma findZstdMagic_sound:
  assumes "\<forall>k \<in> set acc. isZstdCompressed bytes k"
  shows "\<forall>k \<in> set (findZstdMagic bytes i acc). isZstdCompressed bytes k"
  using assms
proof (induction bytes i acc rule: findZstdMagic.induct)
  case (1 bytes i acc)
  show ?case
  proof (cases "i + 4 < length bytes")
    case False
    with 1(3) show ?thesis by (simp add: findZstdMagic_stop)
  next
    case c: True
    show ?thesis
    proof (cases "zstdMagicAt bytes i")
      case True
      with c have "isZstdCompressed bytes i"
        by (simp add: isZstdCompressed_def zstdMagicAt_def)
      with 1(3) have "\<forall>k \<in> set (acc @ [i]). isZstdCompressed bytes k" by simp
      with c True have "\<forall>k \<in> set (findZstdMagic bytes (i + 100 + 1) (acc @ [i])). isZstdCompressed bytes k"
        by (intro 1(1)) simp_all
      with c True show ?thesis by (simp add: findZstdMagic_hit)
    next
      case False
      with c 1(3) have "\<forall>k \<in> set (findZstdMagic bytes (i + 1) acc). isZstdCompressed bytes k"
        by (intro 1(2)) simp_all
      with c False show ?thesis by (simp add: findZstdMagic_miss)
    qed
  qed
qed

lemma magicFrame_fields:
  assumes "f \<in> set (magicFrame bytes offs k)"
  shows "f_isCompressed f" "f_offset f = offs ! k" "f_timestamp f = real k * (1000 / 24)"
  using assms by (auto simp: magicFrame_def Let_def split: if_splits)

lemma scanZstdMagic_frames:
  assumes "f \<in> set (scanZstdMagic bytes s [])"
  shows "\<exists>k < length (findZstdMagic bytes s []).
           f_isCompressed f \<and> f_offset f = findZstdMagic bytes s [] ! k
           \<and> f_timestamp f = real k * (1000 / 24)"
proof -
  from assms obtain k where k: "k < length (findZstdMagic bytes s [])"
    "f \<in> set (magicFrame bytes (findZstdMagic bytes s []) k)"
    by (auto simp: scanZstdMagic_def Let_def)
  with magicFrame_fields [OF k(2)] show ?thesis by blast
qed

lemma scanZstdMagic_flags:
  assumes "f \<in> set (scanZstdMagic bytes s [])"
  shows "zstdFlagged bytes f"
proof -
  from scanZstdMagic_frames [OF assms] obtain k where k: "k < length (findZstdMagic bytes s [])"
    "f_isCompressed f" "f_offset f = findZstdMagic bytes s [] ! k"
    by blast
  have "\<forall>j \<in> set (findZstdMagic bytes s []). isZstdCompressed bytes j"
    by (rule findZstdMagic_sound) simp
  with k show ?thesis by (simp add: zstdFlagged_def)
qed

lemma applyFixed_flags:
  assumes "f \<in> set (applyFixedFrameSize raw bytes s [])"
  shows "f_isCompressed f \<longleftrightarrow> isZstdCompressed bytes (f_offset f)"
  using assms
  by (auto simp: applyFixedFrameSize_def fixedFrame_def Let_def split: if_splits)

lemma fixedFrame_fits:
  assumes n: "0 < n" and fs: "1024 \<le> (length bytes - s) div n" and i: "i < n"
  shows "fixedFrame bytes s ((length bytes - s) div n) i
     = [\<lparr> f_offset = s + i * ((length bytes - s) div n), f_size = (length bytes - s) div n,
          f_blockType = BLOCK_TYPE_FRAME,
          f_isCompressed = isZstdCompressed bytes (s + i * ((length bytes - s) div n)),
          f_timestamp = real i * (1000 / 24), f_perFrameMetadata = None \<rparr>]"
proof -
  let ?fs = "(length bytes - s) div n"
  have "(i + 1) * ?fs \<le> n * ?fs" using i by (intro mult_le_mono1) simp
  also have "\<dots> \<le> length bytes - s" by (simp add: mult.commute)
  finally have a: "(i + 1) * ?fs \<le> length bytes - s" .
  from fs have "0 < length bytes - s" by (cases "length bytes - s") auto
  with a have "s + i * ?fs + ?fs \<le> length bytes" by simp
  then show ?thesis by (simp add: fixedFrame_def Let_def)
qed

lemma applyFixed_stamps:
  assumes "i < length (applyFixedFrameSize raw bytes s [])"
  shows "f_timestamp (applyFixedFrameSize raw bytes s [] ! i) = real i * (1000 / 24)"
proof (cases "0 < numSegments raw \<and> 1024 \<le> (length bytes - s) div nat (numSegments raw)")
  case False
  with assms show ?thesis by (auto simp: applyFixedFrameSize_def Let_def split: if_splits)
next
  case True
  let ?n = "nat (numSegments raw)"
  let ?g = "\<lambda>i. \<lparr> f_offset = s + i * ((length bytes - s) div ?n), f_size = (length bytes - s) div ?n,
          f_blockType = BLOCK_TYPE_FRAME,
          f_isCompressed = isZstdCompressed bytes (s + i * ((length bytes - s) div ?n)),
          f_timestamp = real i * (1000 / 24), f_perFrameMetadata = None \<rparr>"
  from True have n: "0 < ?n" by simp
  have "map (fixedFrame bytes s ((length bytes - s) div ?n)) [0..<?n] = map (\<lambda>i. [?g i]) [0..<?n]"
    using fixedFrame_fits [OF n] True by (intro map_cong) simp_all
  then have "concat (map (fixedFrame bytes s ((length bytes - s) div ?n)) [0..<?n])
      = concat (map (\<lambda>i. [?g i]) [0..<?n])"
    by (rule arg_cong)
  also have "\<dots> = map ?g [0..<?n]" by (rule concat_map_singleton)
  finally have "applyFixedFrameSize raw bytes s [] = map ?g [0..<?n]"
    using True by (simp add: applyFixedFrameSize_def Let_def)
  with assms show ?thesis by simp
qed

lemma scanRaw_fields:
  shows "\<forall>f \<in> set (scanRawBayerBlocks raw bytes s []). \<not> f_isCompressed f"
    and "\<forall>i < length (scanRawBayerBlocks raw bytes s []).
           f_timestamp (scanRawBayerBlocks raw bytes s [] ! i) = real i * (1000 / 24)"
  by (auto simp: scanRawBayerBlocks_def rawFrame_def Let_def)

lemma scanFrameBlocks_cases:
  "scanFrameBlocks pm raw bytes s \<in>
     {snd (scanTypePrefixedBlocks pm raw bytes s []), scanSizePrefixedZstd bytes s [],
      scanZstdMagic bytes s [], applyFixedFrameSize raw bytes s [],
      scanRawBayerBlocks raw bytes s []}"
proof -
  have c: "fst (scanTypePrefixedBlocks pm raw bytes s [])
      = length (snd (scanTypePrefixedBlocks pm raw bytes s []))"
    unfolding scanTypePrefixedBlocks_def
    using scanTyped_stamps [of pm "expected12BitSize raw" bytes s 0 None] by simp
  show ?thesis
    using c by (auto simp: scanFrameBlocks_def Let_def)
qed

lemma le32_length: "length (le32 n) = 4"
  by (simp add: le32_def)

lemma le32_value:
  "(n :: nat) mod 256 + 256 * (n div 256 mod 256) + 65536 * (n div 65536 mod 256)
           + 16777216 * (n div 16777216) = n"
proof -
  have a: "n div 65536 = n div 256 div 256" "n div 16777216 = n div 256 div 256 div 256"
    by (simp_all add: div_mult2_eq)
  have b: "\<And>k :: nat. k mod 256 + 256 * (k div 256) = k" by simp
  have "n div 256 div 256 mod 256 + 256 * (n div 256 div 256 div 256) = n div 256 div 256"
    by (rule b)
  moreover have "n div 256 mod 256 + 256 * (n div 256 div 256) = n div 256" by (rule b)
  moreover have "n mod 256 + 256 * (n div 256) = n" by (rule b)
  ultimately show ?thesis unfolding a by linarith
qed

lemma u32le_le32:
  assumes "n < 4294967296"
  shows "u32le (pre @ le32 n @ rest) (length pre) = n"
proof -
  from assms have "n div 16777216 < 256" by simp
  then have m: "n div 16777216 mod 256 = n div 16777216" by simp
  have "u32le (pre @ le32 n @ rest) (length pre)
      = n mod 256 + 256 * (n div 256 mod 256) + 65536 * (n div 65536 mod 256)
           + 16777216 * (n div 16777216 mod 256)"
    by (simp add: u32le_def le32_def nth_append unat_of_nat)
  then show ?thesis by (simp only: m le32_value)
qed

lemma header_reads:
  assumes "t < 4294967296" "n < 4294967296"
  shows "u32le (pre @ le32 t @ le32 n @ rest) (length pre) = t"
    and "blockSizeAt (pre @ le32 t @ le32 n @ rest) (length pre) = n"
proof -
  show "u32le (pre @ le32 t @ le32 n @ rest) (length pre) = t"
    by (rule u32le_le32 [OF assms(1)])
  have "u32le ((pre @ le32 t) @ le32 n @ rest) (length (pre @ le32 t)) = n"
    by (rule u32le_le32 [OF assms(2)])
  then show "blockSizeAt (pre @ le32 t @ le32 n @ rest) (length pre) = n"
    by (simp add: blockSizeAt_def le32_length)
qed

lemma payload_read:
  "take (length p) (drop (length pre + 8) (pre @ le32 t @ le32 n @ p @ rest)) = p"
  by (simp add: le32_length)

lemma typedFrame_timestamp:
  "f_timestamp (typedFrame e bytes off fc cur)
     = (case cur of Some (Some t) \<Rightarrow> if t = 0 then real fc * (1000000 / 24) else t
        | _ \<Rightarrow> real fc * (1000000 / 24))"
  by (simp add: typedFrame_def Let_def timestampOr_def split: option.splits)

lemma scanTyped_blocks:
  assumes "\<forall>b \<in> set bs. validBlock b" "nv < 5"
  shows "map f_timestamp (snd (scanTyped pm e (pre @ encodeBlocks bs) (length pre) fc nv cur infos))
           = map f_timestamp infos @ prescribedTimestamps pm bs fc cur"
  using assms
proof (induction bs arbitrary: pre fc nv cur infos)
  case Nil
  show ?case by (simp add: encodeBlocks_def scanTyped_stop)
next
  case (Cons b bs)
  show ?case
  proof (cases b)
    case (FrameBlock p)
    let ?bytes = "pre @ le32 BLOCK_TYPE_FRAME @ le32 (length p) @ p @ encodeBlocks bs"
    have bytes: "pre @ encodeBlocks (b # bs) = ?bytes"
      by (simp add: encodeBlocks_def FrameBlock)
    from Cons.prems FrameBlock have p: "1024 \<le> length p" "length p \<le> 50 * 1024 * 1024" by simp_all
    have t: "BLOCK_TYPE_FRAME < 4294967296" by (simp add: BLOCK_TYPE_FRAME_def)
    from p have n: "length p < 4294967296" by simp
    note h = header_reads [OF t n, of pre "p @ encodeBlocks bs"]
    from p have "p \<noteq> []" by auto
    then have c: "length pre + 8 < length ?bytes \<and> nv < 5"
      using Cons.prems(2) by (simp add: le32_length)
    have v: "isValidFrame ?bytes (length pre)"
      using p by (simp add: isValidFrame_def h)
    let ?pre = "pre @ le32 BLOCK_TYPE_FRAME @ le32 (length p) @ p"
    have l: "length ?pre = length pre + 8 + length p" by (simp add: le32_length)
    have "scanTyped pm e ?bytes (length pre) fc nv cur infos
        = scanTyped pm e (?pre @ encodeBlocks bs) (length ?pre) (fc + 1) 0 None
            (infos @ [typedFrame e ?bytes (length pre) fc cur])"
      by (simp only: scanTyped_frame [OF c v] h l append_assoc)
    moreover have "map f_timestamp (snd (scanTyped pm e (?pre @ encodeBlocks bs) (length ?pre) (fc + 1) 0 None
            (infos @ [typedFrame e ?bytes (length pre) fc cur])))
        = map f_timestamp (infos @ [typedFrame e ?bytes (length pre) fc cur])
            @ prescribedTimestamps pm bs (fc + 1) None"
      using Cons.prems by (intro Cons.IH) simp_all
    ultimately show ?thesis
      by (simp only: bytes) (simp add: FrameBlock typedFrame_timestamp)
  next
    case (AudioBlock p)
    let ?bytes = "pre @ le32 BLOCK_TYPE_AUDIO @ le32 (length p) @ p @ encodeBlocks bs"
    have bytes: "pre @ encodeBlocks (b # bs) = ?bytes"
      by (simp add: encodeBlocks_def AudioBlock)
    from Cons.prems AudioBlock have p: "100 \<le> length p" "length p \<le> 10 * 1024 * 1024" by simp_all
    have t: "BLOCK_TYPE_AUDIO < 4294967296" by (simp add: BLOCK_TYPE_AUDIO_def)
    from p have n: "length p < 4294967296" by simp
    note h = header_reads [OF t n, of pre "p @ encodeBlocks bs"]
    from p have "p \<noteq> []" by auto
    then have c: "length pre + 8 < length ?bytes \<and> nv < 5"
      using Cons.prems(2) by (simp add: le32_length)
    have nf: "\<not> isValidFrame ?bytes (length pre)"
      unfolding isValidFrame_def h by (simp add: BLOCK_TYPE_FRAME_def BLOCK_TYPE_AUDIO_def)
    have v: "isValidAudio ?bytes (length pre)"
      using p by (simp add: isValidAudio_def h)
    let ?pre = "pre @ le32 BLOCK_TYPE_AUDIO @ le32 (length p) @ p"
    have l: "length ?pre = length pre + 8 + length p" by (simp add: le32_length)
    have am: "audioMetadata pm ?bytes (length pre) cur
        = (case pm p of Some m \<Rightarrow> Some m | None \<Rightarrow> cur)"
      by (simp only: audioMetadata_def h payload_read)
    have "scanTyped pm e ?bytes (length pre) fc nv cur infos
        = scanTyped pm e (?pre @ encodeBlocks bs) (length ?pre) fc 0
            (case pm p of Some m \<Rightarrow> Some m | None \<Rightarrow> cur) infos"
      by (simp only: scanTyped_audio [OF c nf v] h l am append_assoc)
    moreover have "map f_timestamp (snd (scanTyped pm e (?pre @ encodeBlocks bs) (length ?pre) fc 0
            (case pm p of Some m \<Rightarrow> Some m | None \<Rightarrow> cur) infos))
        = map f_timestamp infos
            @ prescribedTimestamps pm bs fc (case pm p of Some m \<Rightarrow> Some m | None \<Rightarrow> cur)"
      using Cons.prems by (intro Cons.IH) simp_all
    ultimately show ?thesis
      by (simp only: bytes) (simp add: AudioBlock)
  qed
qed

lemma typedScan_prescribed:
  assumes "\<forall>b \<in> set bs. validBlock b"
  shows "typedScanTimestamps pm raw pre bs = prescribedTimestamps pm bs 0 None"
  unfolding typedScanTimestamps_def scanTypePrefixedBlocks_def
  using scanTyped_blocks [OF assms, of 0 pm "expected12BitSize raw" pre 0 None "[]"] by simp

lemma prescribed_length: "length (prescribedTimestamps pm bs i cur) = frameCountOf bs"
proof (induction bs arbitrary: i cur)
  case Nil
  show ?case by (simp add: frameCountOf_def)
next
  case (Cons b bs)
  then show ?case by (cases b) (simp_all add: frameCountOf_def)
qed

lemma prescribed_append:
  "\<exists>cur'. prescribedTimestamps pm (bs1 @ bs2) i cur
      = prescribedTimestamps pm bs1 i cur @ prescribedTimestamps pm bs2 (i + frameCountOf bs1) cur'"
proof (induction bs1 arbitrary: i cur)
  case Nil
  show ?case by (auto simp: frameCountOf_def)
next
  case (Cons b bs1)
  show ?case
  proof (cases b)
    case (FrameBlock p)
    from Cons [of "i + 1" None] show ?thesis by (auto simp: FrameBlock frameCountOf_def)
  next
    case (AudioBlock p)
    from Cons [of i "case pm p of Some m \<Rightarrow> Some m | None \<Rightarrow> cur"] show ?thesis
      by (auto simp: AudioBlock frameCountOf_def)
  qed
qed

lemma prescribed_at:
  "\<exists>cur'. prescribedTimestamps pm (bs1 @ bs2) 0 None ! (frameCountOf bs1 + n)
      = prescribedTimestamps pm bs2 (frameCountOf bs1) cur' ! n"
proof -
  from prescribed_append [of pm bs1 bs2 0 None]
  obtain cur' where "prescribedTimestamps pm (bs1 @ bs2) 0 None
      = prescribedTimestamps pm bs1 0 None @ prescribedTimestamps pm bs2 (frameCountOf bs1) cur'"
    by auto
  then have "prescribedTimestamps pm (bs1 @ bs2) 0 None ! (frameCountOf bs1 + n)
      = prescribedTimestamps pm bs2 (frameCountOf bs1) cur' ! n"
    using prescribed_length [of pm bs1 0 None] by (simp add: nth_append)
  then show ?thesis by blast
qed

lemma json_timestamp_used:
  assumes "\<forall>b \<in> set (bs1 @ AudioBlock j # FrameBlock p # bs2). validBlock b"
    and "pm j = Some m"
  shows "typedScanTimestamps pm raw pre (bs1 @ AudioBlock j # FrameBlock p # bs2) ! frameCountOf bs1
     = (case m of Some t \<Rightarrow> if t = 0 then real (frameCountOf bs1) * (1000000 / 24) else t
        | None \<Rightarrow> real (frameCountOf bs1) * (1000000 / 24))"
proof -
  from prescribed_at [of pm bs1 "AudioBlock j # FrameBlock p # bs2" 0]
  obtain cur' where "prescribedTimestamps pm (bs1 @ AudioBlock j # FrameBlock p # bs2) 0 None ! frameCountOf bs1
      = prescribedTimestamps pm (AudioBlock j # FrameBlock p # bs2) (frameCountOf bs1) cur' ! 0"
    by auto
  then show ?thesis
    by (simp add: typedScan_prescribed [OF assms(1)] assms(2) split: option.splits)
qed

lemma frame_behind_frame:
  assumes "\<forall>b \<in> set (bs1 @ FrameBlock q # FrameBlock p # bs2). validBlock b"
  shows "typedScanTimestamps pm raw pre (bs1 @ FrameBlock q # FrameBlock p # bs2) ! (frameCountOf bs1 + 1)
     = real (frameCountOf bs1 + 1) * (1000000 / 24)"
proof -
  from prescribed_at [of pm bs1 "FrameBlock q # FrameBlock p # bs2" 1]
  obtain cur' where "prescribedTimestamps pm (bs1 @ FrameBlock q # FrameBlock p # bs2) 0 None ! (frameCountOf bs1 + 1)
      = prescribedTimestamps pm (FrameBlock q # FrameBlock p # bs2) (frameCountOf bs1) cur' ! 1"
    by auto
  then show ?thesis
    by (simp add: typedScan_prescribed [OF assms(1)])
qed

text \<open>
  Claim C4, as the code has it. Every strategy sets the compressed flag by a rule of
  its own. Strategy 1 (typed blocks) sets it exactly when the block size is below
  90 per cent of the 12-bit packed frame size and does not look at the payload;
  strategies 2 and 3 record only payloads that start with the zstd signature and
  set the flag; strategy 4 sets it exactly when the chunk starts with the zstd
  signature and does not look at the size; strategy 5 clears it. The frame index is
  the result of one of the five strategies.
\<close>

theorem C4_compressed_flag_per_strategy:
  "(\<forall>f \<in> set (snd (scanTypePrefixedBlocks pm raw bytes s [])).
       f_isCompressed f \<longleftrightarrow> 10 * f_size f < 9 * expected12BitSize raw)
   \<and> (\<forall>f \<in> set (scanSizePrefixedZstd bytes s []).
       f_isCompressed f \<and> isZstdCompressed bytes (f_offset f))
   \<and> (\<forall>f \<in> set (scanZstdMagic bytes s []).
       f_isCompressed f \<and> isZstdCompressed bytes (f_offset f))
   \<and> (\<forall>f \<in> set (applyFixedFrameSize raw bytes s []).
       f_isCompressed f \<longleftrightarrow> isZstdCompressed bytes (f_offset f))
   \<and> (\<forall>f \<in> set (scanRawBayerBlocks raw bytes s []). \<not> f_isCompressed f)
   \<and> scanFrameBlocks pm raw bytes s \<in>
        {snd (scanTypePrefixedBlocks pm raw bytes s []), scanSizePrefixedZstd bytes s [],
         scanZstdMagic bytes s [], applyFixedFrameSize raw bytes s [],
         scanRawBayerBlocks raw bytes s []}"
proof (intro conjI)
  show "\<forall>f \<in> set (snd (scanTypePrefixedBlocks pm raw bytes s [])).
       f_isCompressed f \<longleftrightarrow> 10 * f_size f < 9 * expected12BitSize raw"
    unfolding scanTypePrefixedBlocks_def
    using scanTyped_flags [of pm "expected12BitSize raw" bytes s 0 None]
    by (simp add: flagBySize_def)
  show "\<forall>f \<in> set (scanSizePrefixedZstd bytes s []).
       f_isCompressed f \<and> isZstdCompressed bytes (f_offset f)"
    using scanSized_flags [of bytes s] by (simp add: zstdFlagged_def)
  show "\<forall>f \<in> set (scanZstdMagic bytes s []).
       f_isCompressed f \<and> isZstdCompressed bytes (f_offset f)"
    using scanZstdMagic_flags [of _ bytes s] by (auto simp: zstdFlagged_def)
  show "\<forall>f \<in> set (applyFixedFrameSize raw bytes s []).
       f_isCompressed f \<longleftrightarrow> isZstdCompressed bytes (f_offset f)"
    using applyFixed_flags [of _ raw bytes s] by blast
  show "\<forall>f \<in> set (scanRawBayerBlocks raw bytes s []). \<not> f_isCompressed f"
    by (rule scanRaw_fields(1))
  show "scanFrameBlocks pm raw bytes s \<in>
        {snd (scanTypePrefixedBlocks pm raw bytes s []), scanSizePrefixedZstd bytes s [],
         scanZstdMagic bytes s [], applyFixedFrameSize raw bytes s [],
         scanRawBayerBlocks raw bytes s []}"
    by (rule scanFrameBlocks_cases)
qed

lemma scan_zstdBlock:
  "scanTypePrefixedBlocks (\<lambda>b. None) sensor32 zstdBlock 0 []
     = (1, [\<lparr> f_offset = 8, f_size = 1400, f_blockType = 2, f_isCompressed = False,
              f_timestamp = 0, f_perFrameMetadata = Some None \<rparr>])"
  by (simp add: scanTypePrefixedBlocks_def expected12BitSize_def sensor32_def zstdBlock_def
      u32le_def BLOCK_TYPE_FRAME_def BLOCK_TYPE_AUDIO_def timestampOr_def nth_append
      isValidFrame_def isValidAudio_def blockSizeAt_def typedFrame_def scanTyped.simps)

lemma scan_two_zeroBlocks:
  "scanTypePrefixedBlocks (\<lambda>b. None) sensor32 (zeroBlock @ zeroBlock) 0 []
     = (2, [\<lparr> f_offset = 8, f_size = 1024, f_blockType = 2, f_isCompressed = True,
              f_timestamp = 0, f_perFrameMetadata = Some None \<rparr>,
            \<lparr> f_offset = 1040, f_size = 1024, f_blockType = 2, f_isCompressed = True,
              f_timestamp = 125000 / 3, f_perFrameMetadata = Some None \<rparr>])"
  by (simp add: scanTypePrefixedBlocks_def expected12BitSize_def sensor32_def zeroBlock_def
      u32le_def BLOCK_TYPE_FRAME_def BLOCK_TYPE_AUDIO_def timestampOr_def nth_append
      isValidFrame_def isValidAudio_def blockSizeAt_def typedFrame_def scanTyped.simps)

theorem C4_compressed_flag_per_strategy_witness:
  "snd (scanTypePrefixedBlocks (\<lambda>b. None) sensor32 (zeroBlock @ zeroBlock) 0 [])
     = [\<lparr> f_offset = 8, f_size = 1024, f_blockType = 2, f_isCompressed = True,
              f_timestamp = 0, f_perFrameMetadata = Some None \<rparr>,
        \<lparr> f_offset = 1040, f_size = 1024, f_blockType = 2, f_isCompressed = True,
              f_timestamp = 125000 / 3, f_perFrameMetadata = Some None \<rparr>]
   \<and> 10 * (1024 :: nat) < 9 * expected12BitSize sensor32"
proof -
  let ?f = "\<lparr> f_offset = 8, f_size = 1024, f_blockType = 2, f_isCompressed = True,
              f_timestamp = 0, f_perFrameMetadata = Some None \<rparr>"
  have "\<forall>f \<in> set (snd (scanTypePrefixedBlocks (\<lambda>b. None) sensor32 (zeroBlock @ zeroBlock) 0 [])).
       f_isCompressed f \<longleftrightarrow> 10 * f_size f < 9 * expected12BitSize sensor32"
    using C4_compressed_flag_per_strategy [of "\<lambda>b. None" sensor32 "zeroBlock @ zeroBlock" 0]
    by (rule conjunct1)
  then have "f_isCompressed ?f \<longleftrightarrow> 10 * f_size ?f < 9 * expected12BitSize sensor32"
    by (simp add: scan_two_zeroBlocks)
  then have "10 * (1024 :: nat) < 9 * expected12BitSize sensor32" by simp
  then show ?thesis by (simp add: scan_two_zeroBlocks)
qed

text \<open>
  The claim as the specification words it fails for strategy 1: a typed frame block
  of 1400 bytes on a 32 x 32 sensor (12-bit frame size 1536) starts with the zstd
  signature, and its flag is false because 1400 is not below 90 per cent of 1536.
\<close>

theorem C4_zstd_block_not_flagged_counterexample:
  "scanFrameBlocks (\<lambda>b. None) sensor32 zstdBlock 0
     = [\<lparr> f_offset = 8, f_size = 1400, f_blockType = 2, f_isCompressed = False,
          f_timestamp = 0, f_perFrameMetadata = Some None \<rparr>]
   \<and> isZstdCompressed zstdBlock 8"
  by (simp add: scanFrameBlocks_def scan_zstdBlock)
    (simp add: isZstdCompressed_def zstdBlock_def)

text \<open>
  Claim C5, as the code has it. Strategy 1 gives frame \<open>i\<close> the timestamp of the
  JSON block in front of it when that is present and not 0, and otherwise
  \<open>i * 1000000 / 24\<close> (microseconds at 24 frames per second): the timestamp of
  every frame is the one of its own per-frame metadata or the fallback; on a file of
  valid typed blocks the timestamps are the prescribed ones; a frame directly
  behind a JSON block with a timestamp \<open>t\<close> other than 0 gets \<open>t\<close>, a frame
  behind a JSON block without a timestamp (or with the timestamp 0) gets the
  fallback, and so does a frame directly behind another frame and the first block
  of the file. Strategies 2, 4 and 5 give frame \<open>i\<close> the timestamp
  \<open>i * 1000 / 24\<close> (milliseconds), and strategy 3 gives a frame \<open>k * 1000 / 24\<close>,
  where \<open>k\<close> is the index of its zstd signature among the signatures found. The
  frame index is the result of one of the five strategies.
\<close>

theorem C5_timestamps_per_strategy:
  "(\<forall>i < length (snd (scanTypePrefixedBlocks pm raw bytes s [])).
       f_timestamp (snd (scanTypePrefixedBlocks pm raw bytes s []) ! i)
         = timestampOr (case f_perFrameMetadata (snd (scanTypePrefixedBlocks pm raw bytes s []) ! i) of
                          None \<Rightarrow> None | Some m \<Rightarrow> m)
             (real i * (1000000 / 24)))
   \<and> ((\<forall>b \<in> set bs. validBlock b)
        \<longrightarrow> typedScanTimestamps pm raw pre bs = prescribedTimestamps pm bs 0 None)
   \<and> ((\<forall>b \<in> set (bs1 @ AudioBlock j # FrameBlock p # bs2). validBlock b)
        \<and> parseMeta j = Some (Some t) \<and> t \<noteq> 0
        \<longrightarrow> typedScanTimestamps parseMeta raw pre (bs1 @ AudioBlock j # FrameBlock p # bs2)
              ! frameCountOf bs1 = t)
   \<and> ((\<forall>b \<in> set (bs1 @ AudioBlock j # FrameBlock p # bs2). validBlock b)
        \<and> (parseMeta j = Some None \<or> parseMeta j = Some (Some 0))
        \<longrightarrow> typedScanTimestamps parseMeta raw pre (bs1 @ AudioBlock j # FrameBlock p # bs2)
              ! frameCountOf bs1 = real (frameCountOf bs1) * (1000000 / 24))
   \<and> ((\<forall>b \<in> set (bs1 @ FrameBlock q # FrameBlock p # bs2). validBlock b)
        \<longrightarrow> typedScanTimestamps pm raw pre (bs1 @ FrameBlock q # FrameBlock p # bs2)
              ! (frameCountOf bs1 + 1) = real (frameCountOf bs1 + 1) * (1000000 / 24))
   \<and> ((\<forall>b \<in> set (FrameBlock p # bs2). validBlock b)
        \<longrightarrow> typedScanTimestamps pm raw pre (FrameBlock p # bs2) ! 0 = 0)
   \<and> (\<forall>i < length (scanSizePrefixedZstd bytes s []).
       f_timestamp (scanSizePrefixedZstd bytes s [] ! i) = real i * (1000 / 24))
   \<and> (\<forall>f \<in> set (scanZstdMagic bytes s []).
       \<exists>k < length (findZstdMagic bytes s []).
          f_offset f = findZstdMagic bytes s [] ! k \<and> f_timestamp f = real k * (1000 / 24))
   \<and> (\<forall>i < length (applyFixedFrameSize raw bytes s []).
       f_timestamp (applyFixedFrameSize raw bytes s [] ! i) = real i * (1000 / 24))
   \<and> (\<forall>i < length (scanRawBayerBlocks raw bytes s []).
       f_timestamp (scanRawBayerBlocks raw bytes s [] ! i) = real i * (1000 / 24))
   \<and> scanFrameBlocks pm raw bytes s \<in>
        {snd (scanTypePrefixedBlocks pm raw bytes s []), scanSizePrefixedZstd bytes s [],
         scanZstdMagic bytes s [], applyFixedFrameSize raw bytes s [],
         scanRawBayerBlocks raw bytes s []}"
proof (intro conjI impI)
  show "\<forall>i < length (snd (scanTypePrefixedBlocks pm raw bytes s [])).
       f_timestamp (snd (scanTypePrefixedBlocks pm raw bytes s []) ! i)
         = timestampOr (case f_perFrameMetadata (snd (scanTypePrefixedBlocks pm raw bytes s []) ! i) of
                          None \<Rightarrow> None | Some m \<Rightarrow> m)
             (real i * (1000000 / 24))"
    unfolding scanTypePrefixedBlocks_def
    using scanTyped_stamps [of pm "expected12BitSize raw" bytes s 0 None]
    by (simp add: stamped_def)
  show "typedScanTimestamps pm raw pre bs = prescribedTimestamps pm bs 0 None"
    if "\<forall>b \<in> set bs. validBlock b"
    using that by (rule typedScan_prescribed)
  show "typedScanTimestamps parseMeta raw pre (bs1 @ AudioBlock j # FrameBlock p # bs2)
              ! frameCountOf bs1 = t"
    if "(\<forall>b \<in> set (bs1 @ AudioBlock j # FrameBlock p # bs2). validBlock b)
        \<and> parseMeta j = Some (Some t) \<and> t \<noteq> 0"
    using that json_timestamp_used [of bs1 j p bs2 parseMeta "Some t" raw pre] by simp
  show "typedScanTimestamps parseMeta raw pre (bs1 @ AudioBlock j # FrameBlock p # bs2)
              ! frameCountOf bs1 = real (frameCountOf bs1) * (1000000 / 24)"
    if "(\<forall>b \<in> set (bs1 @ AudioBlock j # FrameBlock p # bs2). validBlock b)
        \<and> (parseMeta j = Some None \<or> parseMeta j = Some (Some 0))"
    using that json_timestamp_used [of bs1 j p bs2 parseMeta "None" raw pre]
      json_timestamp_used [of bs1 j p bs2 parseMeta "Some 0" raw pre]
    by auto
  show "typedScanTimestamps pm raw pre (bs1 @ FrameBlock q # FrameBlock p # bs2)
              ! (frameCountOf bs1 + 1) = real (frameCountOf bs1 + 1) * (1000000 / 24)"
    if "\<forall>b \<in> set (bs1 @ FrameBlock q # FrameBlock p # bs2). validBlock b"
    using that by (rule frame_behind_frame)
  show "typedScanTimestamps pm raw pre (FrameBlock p # bs2) ! 0 = 0"
    if "\<forall>b \<in> set (FrameBlock p # bs2). validBlock b"
    by (simp add: typedScan_prescribed [OF that])
  show "\<forall>i < length (scanSizePrefixedZstd bytes s []).
       f_timestamp (scanSizePrefixedZstd bytes s [] ! i) = real i * (1000 / 24)"
    by (rule scanSized_stamps)
  show "\<forall>f \<in> set (scanZstdMagic bytes s []).
       \<exists>k < length (findZstdMagic bytes s []).
          f_offset f = findZstdMagic bytes s [] ! k \<and> f_timestamp f = real k * (1000 / 24)"
    using scanZstdMagic_frames [of _ bytes s] by blast
  show "\<forall>i < length (applyFixedFrameSize raw bytes s []).
       f_timestamp (applyFixedFrameSize raw bytes s [] ! i) = real i * (1000 / 24)"
    using applyFixed_stamps [of _ raw bytes s] by blast
  show "\<forall>i < length (scanRawBayerBlocks raw bytes s []).
       f_timestamp (scanRawBayerBlocks raw bytes s [] ! i) = real i * (1000 / 24)"
    by (rule scanRaw_fields(2))
  show "scanFrameBlocks pm raw bytes s \<in>
        {snd (scanTypePrefixedBlocks pm raw bytes s []), scanSizePrefixedZstd bytes s [],
         scanZstdMagic bytes s [], applyFixedFrameSize raw bytes s [],
         scanRawBayerBlocks raw bytes s []}"
    by (rule scanFrameBlocks_cases)
qed

theorem C5_timestamps_per_strategy_witness:
  "length (snd (scanTypePrefixedBlocks (\<lambda>b. None) sensor32 (zeroBlock @ zeroBlock) 0 [])) = 2
   \<and> f_timestamp (snd (scanTypePrefixedBlocks (\<lambda>b. None) sensor32 (zeroBlock @ zeroBlock) 0 []) ! 1)
       = 1000000 / 24
   \<and> typedScanTimestamps parseExample sensor32 []
        [AudioBlock jsonPayload, FrameBlock (replicate 1024 0), FrameBlock (replicate 1024 0)]
       = [777, 1000000 / 24]
   \<and> typedScanTimestamps parseExample sensor32 []
        ([] @ AudioBlock jsonPayload # FrameBlock (replicate 1024 0) # [FrameBlock (replicate 1024 0)])
        ! frameCountOf [] = 777"
proof -
  let ?fs = "snd (scanTypePrefixedBlocks (\<lambda>b. None) sensor32 (zeroBlock @ zeroBlock) 0 [])"
  let ?bs = "[AudioBlock jsonPayload, FrameBlock (replicate 1024 0), FrameBlock (replicate 1024 0)]"
  note t = C5_timestamps_per_strategy [of "\<lambda>b. None" sensor32 "zeroBlock @ zeroBlock" 0]
  note u = C5_timestamps_per_strategy [of parseExample sensor32 "[]" 0 ?bs "[]" "[]" jsonPayload
      "replicate 1024 0" "[FrameBlock (replicate 1024 0)]" parseExample 777]
  have l: "length ?fs = 2" by (simp add: scan_two_zeroBlocks)
  have "\<forall>i < length ?fs. f_timestamp (?fs ! i)
         = timestampOr (case f_perFrameMetadata (?fs ! i) of None \<Rightarrow> None | Some m \<Rightarrow> m)
             (real i * (1000000 / 24))"
    using t by (rule conjunct1)
  with l have "f_timestamp (?fs ! 1)
         = timestampOr (case f_perFrameMetadata (?fs ! 1) of None \<Rightarrow> None | Some m \<Rightarrow> m)
             (real 1 * (1000000 / 24))"
    by simp
  then have a: "f_timestamp (?fs ! 1) = 1000000 / 24"
    by (simp add: scan_two_zeroBlocks timestampOr_def)
  have v: "\<forall>b \<in> set ?bs. validBlock b" by (simp add: jsonPayload_def)
  have pj: "parseExample jsonPayload = Some (Some 777)" by (simp add: parseExample_def)
  have "(\<forall>b \<in> set ?bs. validBlock b)
        \<longrightarrow> typedScanTimestamps parseExample sensor32 [] ?bs = prescribedTimestamps parseExample ?bs 0 None"
    using u by (rule conjunct2 [THEN conjunct1])
  with v have "typedScanTimestamps parseExample sensor32 [] ?bs = prescribedTimestamps parseExample ?bs 0 None"
    by (rule rev_mp)
  then have b: "typedScanTimestamps parseExample sensor32 [] ?bs = [777, 1000000 / 24]"
    by (simp add: pj)
  have "(\<forall>b \<in> set ([] @ AudioBlock jsonPayload # FrameBlock (replicate 1024 0) # [FrameBlock (replicate 1024 0)]).
            validBlock b)
        \<and> parseExample jsonPayload = Some (Some 777) \<and> (777 :: real) \<noteq> 0
        \<longrightarrow> typedScanTimestamps parseExample sensor32 []
              ([] @ AudioBlock jsonPayload # FrameBlock (replicate 1024 0) # [FrameBlock (replicate 1024 0)])
              ! frameCountOf [] = 777"
    using u by (rule conjunct2 [THEN conjunct2, THEN conjunct1])
  with v pj have c: "typedScanTimestamps parseExample sensor32 []
        ([] @ AudioBlock jsonPayload # FrameBlock (replicate 1024 0) # [FrameBlock (replicate 1024 0)])
        ! frameCountOf [] = 777"
    by simp
  from l a b c show ?thesis by (intro conjI)
qed

text \<open>
  The claim as the specification words it fails already for the second frame of a
  file of two typed blocks without per-frame JSON: its timestamp is
  \<open>1000000 / 24\<close>, not \<open>1 / 24\<close>.
\<close>

theorem C5_timestamp_not_in_seconds_counterexample:
  "map f_timestamp (scanFrameBlocks (\<lambda>b. None) sensor32 (zeroBlock @ zeroBlock) 0)
     = [0, 125000 / 3]
   \<and> map f_perFrameMetadata (scanFrameBlocks (\<lambda>b. None) sensor32 (zeroBlock @ zeroBlock) 0)
     = [Some None, Some None]
   \<and> (125000 / 3 :: real) \<noteq> 1 / 24"
  by (simp add: scanFrameBlocks_def scan_two_zeroBlocks)

end
